theory Spec2Isabelle
  imports Main "HOL-Library.Word"
begin

unbundle bit_operations_syntax

section \<open>MUS to MIDI translation (src/src/mus.c)\<close>

text \<open>
  A shallow embedding of \<^verbatim>\<open>mus.c\<close>. Conventions of the model:
  \<^item> \<^verbatim>\<open>uint8_t\<close>, \<^verbatim>\<open>uint16_t\<close> and \<^verbatim>\<open>uint32_t\<close> are words of that width; \<^verbatim>\<open>int\<close>
    and \<^verbatim>\<open>long\<close> are mathematical integers with the range of \<^verbatim>\<open>int\<close> (32 bits) and
    \<^verbatim>\<open>long\<close> (64 bits, LP64) checked where the code computes a value that can leave it.
  \<^item> A computation has the type \<open>(fault + 'a) option\<close>: \<open>None\<close> when it does not return,
    \<open>Some (Inl f)\<close> when it reaches behaviour that C leaves undefined (the fault says
    which), \<open>Some (Inr x)\<close> when it returns \<open>x\<close>.
  \<^item> The input buffer is a list of bytes and a pointer into it is an offset. The output
    allocation is a store from offsets to bytes (\<open>None\<close>: not written since it was
    allocated) together with its allocated size.
  \<^item> \<^verbatim>\<open>calloc\<close> and \<^verbatim>\<open>realloc\<close> are taken to succeed, and the debugging copy that
    \<^verbatim>\<open>mus2midi\<close> writes to \<^verbatim>\<open>/tmp/test.mid\<close> is left out (file I/O).
  \<^item> The header is read with \<^verbatim>\<open>memcpy\<close> in host byte order; the model is little-endian.
  \<^item> A local variable that is read before it is set holds a value that the model takes as
    a parameter.
\<close>

type_synonym byte = "8 word"

datatype fault =
    SrcOverread      \<comment> \<open>a read past the end of the input buffer\<close>
  | TableOverread    \<comment> \<open>a read past the end of \<^verbatim>\<open>midimap\<close>\<close>
  | ArrayOverrun     \<comment> \<open>an index outside a local 16-entry array\<close>
  | IntOverflow      \<comment> \<open>signed overflow of an \<^verbatim>\<open>int\<close> or a \<^verbatim>\<open>long\<close>\<close>
  | DstOverflow      \<comment> \<open>a write past the end of the output allocation\<close>

datatype anomaly = BadController | EndMisaligned  \<comment> \<open>the two \<^verbatim>\<open>printf\<close> diagnostics\<close>

definition ret :: "'a \<Rightarrow> (fault + 'a) option" where
  "ret x = Some (Inr x)"

definition abort :: "fault \<Rightarrow> (fault + 'a) option" where
  "abort e = Some (Inl e)"

definition bindC :: "(fault + 'a) option \<Rightarrow> ('a \<Rightarrow> (fault + 'b) option) \<Rightarrow> (fault + 'b) option" where
  "bindC m f = (case m of None \<Rightarrow> None | Some (Inl e) \<Rightarrow> Some (Inl e) | Some (Inr x) \<Rightarrow> f x)"

subsection \<open>Constants and types\<close>

definition DST_CHUNK :: "32 word" where "DST_CHUNK = 8192"
definition TEMPO :: "32 word" where "TEMPO = 0x001aa309"
definition MUSEVENT_KEYOFF :: byte where "MUSEVENT_KEYOFF = 0"
definition MUSEVENT_KEYON :: byte where "MUSEVENT_KEYON = 1"
definition MUSEVENT_PITCHWHEEL :: byte where "MUSEVENT_PITCHWHEEL = 2"
definition MUSEVENT_CHANNELMODE :: byte where "MUSEVENT_CHANNELMODE = 3"
definition MUSEVENT_CONTROLLERCHANGE :: byte where "MUSEVENT_CONTROLLERCHANGE = 4"
definition MUSEVENT_END :: byte where "MUSEVENT_END = 6"
definition MIDI_MAXCHANNELS :: nat where "MIDI_MAXCHANNELS = 16"
definition INT_MAX :: int where "INT_MAX = 2 ^ 31 - 1"
definition LONG_MAX :: int where "LONG_MAX = 2 ^ 63 - 1"

definition midimap :: "byte list" where
  "midimap = [0, 0, 0x01, 0x07, 0x0A, 0x0B, 0x5B, 0x5D, 0x40, 0x43, 0x78, 0x7B, 0x7E, 0x7F, 0x79]"

record MUSheader =
  ID :: "byte list"
  scoreLen :: "16 word"
  scoreStart :: "16 word"
  channels :: "16 word"
  sec_channels :: "16 word"
  instrCnt :: "16 word"
  dummy :: "16 word"

text \<open>\<^verbatim>\<open>sizeof(MUSheader)\<close> and \<^verbatim>\<open>sizeof(MidiTrackChunk)\<close>.\<close>

definition sizeof_MUSheader :: nat where "sizeof_MUSheader = 16"
definition sizeof_MidiTrackChunk :: "32 word" where "sizeof_MidiTrackChunk = 8"

record mus_ctx =
  src :: "byte list"
  src_ptr :: nat
  srcsize :: "32 word"
  datastart :: "32 word"
  dst :: "nat \<Rightarrow> byte option"
  dst_cap :: nat
  dst_ptr :: nat
  dstsize :: "32 word"
  dstrem :: "32 word"

subsection \<open>The byte sink\<close>

text \<open>
  \<^verbatim>\<open>realloc\<close> keeps the bytes below the new size; the bytes it adds are not initialised.
  Its size argument and \<^verbatim>\<open>pos\<close> are computed in 32 bits.
\<close>

definition resize_dst :: "mus_ctx \<Rightarrow> mus_ctx" where
  "resize_dst c =
     (let pos = (word_of_nat (dst_ptr c) :: 32 word);
          newcap = unat (dstsize c + DST_CHUNK)
      in c\<lparr>dst := (\<lambda>i. if i < newcap then dst c i else None),
            dst_cap := newcap,
            dstsize := dstsize c + DST_CHUNK,
            dstrem := dstrem c + DST_CHUNK,
            dst_ptr := unat pos\<rparr>)"

text \<open>The store \<^verbatim>\<open>*ctx->dst_ptr++ = v\<close>.\<close>

definition poke :: "mus_ctx \<Rightarrow> byte \<Rightarrow> (fault + mus_ctx) option" where
  "poke c v =
     (if dst_ptr c < dst_cap c
      then ret (c\<lparr>dst := (dst c)(dst_ptr c := Some v), dst_ptr := dst_ptr c + 1\<rparr>)
      else abort DstOverflow)"

definition write1 :: "mus_ctx \<Rightarrow> 32 word \<Rightarrow> (fault + mus_ctx) option" where
  "write1 c0 val =
     (let c = (if dstrem c0 < 1 then resize_dst c0 else c0) in
      bindC (poke c (ucast (val AND 0xff))) (\<lambda>c.
      ret (c\<lparr>dstrem := dstrem c - 1\<rparr>)))"

definition write2 :: "mus_ctx \<Rightarrow> 32 word \<Rightarrow> (fault + mus_ctx) option" where
  "write2 c0 val =
     (let c = (if dstrem c0 < 2 then resize_dst c0 else c0) in
      bindC (poke c (ucast (drop_bit 8 val AND 0xff))) (\<lambda>c.
      bindC (poke c (ucast (val AND 0xff))) (\<lambda>c.
      ret (c\<lparr>dstrem := dstrem c - 2\<rparr>))))"

definition write4 :: "mus_ctx \<Rightarrow> 32 word \<Rightarrow> (fault + mus_ctx) option" where
  "write4 c0 val =
     (let c = (if dstrem c0 < 4 then resize_dst c0 else c0) in
      bindC (poke c (ucast (drop_bit 24 val AND 0xff))) (\<lambda>c.
      bindC (poke c (ucast (drop_bit 16 val AND 0xff))) (\<lambda>c.
      bindC (poke c (ucast (drop_bit 8 val AND 0xff))) (\<lambda>c.
      bindC (poke c (ucast (val AND 0xff))) (\<lambda>c.
      ret (c\<lparr>dstrem := dstrem c - 4\<rparr>))))))"

text \<open>
  The loop \<^verbatim>\<open>while (ctx->dstsize < pos) resize_dst(ctx);\<close> of \<^verbatim>\<open>seekdst\<close> and
  \<^verbatim>\<open>skipdst\<close>. Its counter is a 32-bit value that wraps around, so it need not end.
\<close>

partial_function (option) grow_dst :: "mus_ctx \<Rightarrow> nat \<Rightarrow> mus_ctx option" where
  "grow_dst c target =
     (if unat (dstsize c) < target then grow_dst (resize_dst c) target else Some c)"

declare grow_dst.simps [code]

definition seekdst :: "mus_ctx \<Rightarrow> 32 word \<Rightarrow> (fault + mus_ctx) option" where
  "seekdst c pos =
     (case grow_dst (c\<lparr>dst_ptr := unat pos\<rparr>) (unat pos) of
        None \<Rightarrow> None
      | Some c' \<Rightarrow> ret (c'\<lparr>dstrem := dstsize c' - pos\<rparr>))"

text \<open>
  In \<^verbatim>\<open>skipdst\<close> the offset \<open>pos\<close> is an \<^verbatim>\<open>int32_t\<close> and \<open>newpos\<close> a \<^verbatim>\<open>size_t\<close> of 64 bits:
  an offset that takes the cursor below the start of the buffer wraps \<open>newpos\<close> around
  to a value that no 32-bit \<open>dstsize\<close> reaches, and the loop does not end
  (lemma \<open>skipdst_below_start\<close>).
\<close>

definition skipdst :: "mus_ctx \<Rightarrow> int \<Rightarrow> (fault + mus_ctx) option" where
  "skipdst c pos =
     (let newpos = nat ((int (dst_ptr c) + pos) mod 2 ^ 64) in
      case grow_dst (c\<lparr>dst_ptr := newpos\<rparr>) newpos of
        None \<Rightarrow> None
      | Some c' \<Rightarrow> ret (c'\<lparr>dstrem := dstsize c' - word_of_nat newpos\<rparr>))"

definition getdstpos :: "mus_ctx \<Rightarrow> 32 word" where
  "getdstpos c = word_of_nat (dst_ptr c)"

definition mus_getmididata :: "mus_ctx \<Rightarrow> nat \<Rightarrow> byte option" where
  "mus_getmididata c = dst c"

definition mus_getmidisize :: "mus_ctx \<Rightarrow> 32 word" where
  "mus_getmidisize c = dstsize c - dstrem c"

subsection \<open>WriteVarLen\<close>

text \<open>
  The first loop packs the 7-bit groups of \<open>value\<close> into \<open>buffer\<close>, one per byte. The
  second loop stores the bytes of \<open>buffer\<close>, lowest first, as long as the byte stored
  has its high bit set; \<open>out\<close> holds the bytes stored so far.
\<close>

function wvl_pack :: "int \<Rightarrow> int \<Rightarrow> fault + int" where
  "wvl_pack val buffer =
     (let val' = drop_bit 7 val in
      if val' > 0 then
        (let buffer' = push_bit 8 buffer + 0x80 + (val' AND 0x7f) in
         if buffer' \<le> LONG_MAX then wvl_pack val' buffer' else Inl IntOverflow)
      else Inr buffer)"
  by pat_completeness auto
termination
  by (relation "measure (\<lambda>(v, b). nat v)") (auto simp: drop_bit_eq_div)

declare wvl_pack.simps [simp del]

partial_function (option) wvl_emit :: "int \<Rightarrow> int \<Rightarrow> byte list \<Rightarrow> (int \<times> byte list) option" where
  "wvl_emit buffer count out =
     (let count' = count + 1; out' = out @ [word_of_int buffer] in
      if buffer AND 0x80 \<noteq> 0 then wvl_emit (drop_bit 8 buffer) count' out'
      else Some (count', out'))"

declare wvl_emit.simps [code]

definition WriteVarLen :: "int \<Rightarrow> (fault + int \<times> byte list) option" where
  "WriteVarLen val =
     (case wvl_pack val (val AND 0x7f) of
        Inl e \<Rightarrow> Some (Inl e)
      | Inr buffer \<Rightarrow> map_option Inr (wvl_emit buffer 0 []))"

subsection \<open>The state of the main loop\<close>

text \<open>
  The locals of \<^verbatim>\<open>mus2midi\<close> that the loop changes, with the context. \<open>cur\<close> is the
  offset of the source cursor in the input buffer; \<open>diag\<close> collects what the loop prints.
\<close>

record loop_state =
  mctx :: mus_ctx
  cur :: nat
  delta_time :: int
  channel_volume :: "int list"
  channelMap :: "int list"
  currentChannel :: int
  diag :: "anomaly list"

text \<open>The read \<^verbatim>\<open>*p\<close> of the input at offset \<open>i\<close>, and \<^verbatim>\<open>*cur++\<close>.\<close>

definition rd :: "byte list \<Rightarrow> nat \<Rightarrow> (fault + byte) option" where
  "rd data i = (if i < length data then ret (data ! i) else abort SrcOverread)"

definition next_byte :: "byte list \<Rightarrow> loop_state \<Rightarrow> (fault + byte \<times> loop_state) option" where
  "next_byte data st = bindC (rd data (cur st)) (\<lambda>b. ret (b, st\<lparr>cur := cur st + 1\<rparr>))"

text \<open>The read \<^verbatim>\<open>midimap[i]\<close>.\<close>

definition midimap_at :: "byte \<Rightarrow> (fault + byte) option" where
  "midimap_at i = (if unat i < length midimap then ret (midimap ! unat i) else abort TableOverread)"

text \<open>
  \<^verbatim>\<open>if (! (*cur < sizeof(midimap) / sizeof(midimap[0]))) printf("Not good.\r\n");\<close>
\<close>

definition check_controller :: "byte \<Rightarrow> loop_state \<Rightarrow> loop_state" where
  "check_controller b st =
     (if \<not> unat b < length midimap then st\<lparr>diag := diag st @ [BadController]\<rparr> else st)"

text \<open>\<^verbatim>\<open>channel_volume[i]\<close>, read and written, for an \<^verbatim>\<open>int\<close> index.\<close>

definition vol_get :: "loop_state \<Rightarrow> int \<Rightarrow> (fault + int) option" where
  "vol_get st i =
     (if 0 \<le> i \<and> i < int MIDI_MAXCHANNELS then ret (channel_volume st ! nat i)
      else abort ArrayOverrun)"

definition vol_set :: "loop_state \<Rightarrow> int \<Rightarrow> int \<Rightarrow> (fault + loop_state) option" where
  "vol_set st i v =
     (if 0 \<le> i \<and> i < int MIDI_MAXCHANNELS
      then ret (st\<lparr>channel_volume := (channel_volume st)[nat i := v]\<rparr>)
      else abort ArrayOverrun)"

subsection \<open>One iteration of the main loop\<close>

text \<open>
  The block \<^verbatim>\<open>if (channelMap[channel] < 0) { ... }\<close>: the bytes it stores in the
  temporary buffer and the state after it.
\<close>

definition alloc_channel :: "loop_state \<Rightarrow> byte \<Rightarrow> byte list \<times> loop_state" where
  "alloc_channel st channel =
     (if channelMap st ! unat channel < 0 then
        (let cc = currentChannel st;
             cc1 = cc + 1;
             cc2 = (if cc1 = 9 then cc1 + 1 else cc1)
         in ([word_of_int (0xB0 + cc), 0x07, 127, 0x00],
             st\<lparr>channelMap := (channelMap st)[unat channel := cc], currentChannel := cc2\<rparr>))
      else ([], st))"

text \<open>
  The \<^verbatim>\<open>switch\<close>. It returns \<open>(status, bit1, bit2, bitc)\<close> and the state. \<open>bit1\<close> and
  \<open>bit2\<close> are declared without an initialiser: \<open>u\<close> is the pair of values they hold
  when the \<^verbatim>\<open>switch\<close> is entered, whatever they are.
\<close>

definition translate ::
  "byte list \<Rightarrow> MUSheader \<Rightarrow> nat \<Rightarrow> byte \<times> byte \<Rightarrow> byte \<Rightarrow> byte \<Rightarrow> loop_state \<Rightarrow>
   (fault + (byte \<times> byte \<times> byte \<times> byte) \<times> loop_state) option" where
  "translate data hdr endp u event channel st0 =
     (let status = (word_of_int (channelMap st0 ! unat channel) :: byte);
          ty = drop_bit 4 (event AND 122)
      in
      if ty = MUSEVENT_KEYOFF then
        bindC (next_byte data st0) (\<lambda>(b, st).
        ret ((status OR 0x80, b, 0x40, 2), st))
      else if ty = MUSEVENT_KEYON then
        bindC (rd data (cur st0)) (\<lambda>n.
        bindC (next_byte data st0) (\<lambda>(f, st).
        bindC (if f AND 128 \<noteq> 0
               then bindC (next_byte data st) (\<lambda>(v, st).
                    vol_set st (channelMap st ! unat channel) (uint v))
               else ret st) (\<lambda>st.
        bindC (vol_get st (channelMap st ! unat channel)) (\<lambda>vol.
        ret ((status OR 0x90, n AND 127, word_of_int vol, 2), st)))))
      else if ty = MUSEVENT_PITCHWHEEL then
        bindC (rd data (cur st0)) (\<lambda>b0.
        bindC (next_byte data st0) (\<lambda>(b1, st).
        ret ((status OR 0xE0, drop_bit 6 (b0 AND 1), drop_bit 1 b1 AND 127, 2), st)))
      else if ty = MUSEVENT_CHANNELMODE then
        bindC (rd data (cur st0)) (\<lambda>b0.
        bindC (next_byte data (check_controller b0 st0)) (\<lambda>(i, st).
        bindC (midimap_at i) (\<lambda>m.
        bindC (next_byte data st) (\<lambda>(b2, st).
        ret ((status OR 0xB0, m,
              if b2 = 12 then word_of_nat (unat (channels hdr) + 1) else 0x00, 2), st)))))
      else if ty = MUSEVENT_CONTROLLERCHANGE then
        bindC (rd data (cur st0)) (\<lambda>b0.
        if b0 = 0 then
          bindC (next_byte data (st0\<lparr>cur := cur st0 + 1\<rparr>)) (\<lambda>(p, st).
          ret ((status OR 0xC0, p, snd u, 1), st))
        else
          bindC (next_byte data (check_controller b0 st0)) (\<lambda>(i, st).
          bindC (midimap_at i) (\<lambda>m.
          bindC (next_byte data st) (\<lambda>(v, st).
          ret ((status OR 0xB0, m, v, 2), st)))))
      else if ty = 5 then
        ret ((status, fst u, snd u, 2), st0)
      else if ty = MUSEVENT_END then
        ret ((0xff, 0x2f, 0x00, 2),
             if \<not> cur st0 = endp then st0\<lparr>diag := diag st0 @ [EndMisaligned]\<rparr> else st0)
      else
        ret ((status, fst u, snd u, 2), st0))"

text \<open>\<^verbatim>\<open>memcpy(ctx->dst_ptr, temp_buffer, n)\<close>.\<close>

fun store_bytes :: "(nat \<Rightarrow> byte option) \<Rightarrow> nat \<Rightarrow> byte list \<Rightarrow> nat \<Rightarrow> byte option" where
  "store_bytes m p [] = m"
| "store_bytes m p (b # bs) = store_bytes (m(p := Some b)) (Suc p) bs"

definition memcpy_dst :: "mus_ctx \<Rightarrow> byte list \<Rightarrow> (fault + mus_ctx) option" where
  "memcpy_dst c bs =
     (if dst_ptr c + length bs \<le> dst_cap c
      then ret (c\<lparr>dst := store_bytes (dst c) (dst_ptr c) bs\<rparr>)
      else abort DstOverflow)"

text \<open>
  The block \<^verbatim>\<open>if (out_local != temp_buffer) { ... }\<close>, for the bytes \<open>tmp\<close> of the
  temporary buffer below \<^verbatim>\<open>out_local\<close>. \<^verbatim>\<open>sizeof(temp_buffer)*32\<close> is 1024.
\<close>

definition flush_tmp :: "mus_ctx \<Rightarrow> byte list \<Rightarrow> (fault + mus_ctx) option" where
  "flush_tmp c0 tmp =
     (if tmp \<noteq> [] then
        (let c = (if dstrem c0 < 1024 then resize_dst c0 else c0) in
         bindC (memcpy_dst c tmp) (\<lambda>c.
         ret (c\<lparr>dst_ptr := dst_ptr c + length tmp,
                 dstsize := dstsize c + word_of_nat (length tmp),
                 dstrem := dstrem c - word_of_nat (length tmp)\<rparr>)))
      else ret c0)"

text \<open>
  The \<^verbatim>\<open>do ... while\<close> that reads the MUS delta time; it returns the cursor and the
  delta time. \<open>dt\<close> is an \<^verbatim>\<open>int\<close>.
\<close>

function read_delta :: "byte list \<Rightarrow> nat \<Rightarrow> int \<Rightarrow> (fault + nat \<times> int) option" where
  "read_delta data c dt =
     (if c < length data then
        (let dt' = dt * 128 + uint (data ! c AND 127) in
         if dt' > INT_MAX then abort IntOverflow
         else if data ! c AND 128 \<noteq> 0 then read_delta data (c + 1) dt'
         else ret (c + 1, dt'))
      else abort SrcOverread)"
  by pat_completeness auto
termination
  by (relation "measure (\<lambda>(data, c, dt). length data - c)") auto

declare read_delta.simps [simp del]

text \<open>
  \<open>event_bytes\<close> is what \<^verbatim>\<open>write it out\<close> stores in the temporary buffer and
  \<open>next_delta\<close> is the \<^verbatim>\<open>if (event & 128)\<close> that ends the body. \<open>loop_body\<close> is the body
  of \<^verbatim>\<open>while(cur < end)\<close>. \<open>indet i\<close> is the pair of values that \<open>bit1\<close> and \<open>bit2\<close>
  hold, uninitialised, in the iteration whose event byte is at offset \<open>i\<close>.
  \<^verbatim>\<open>out_local\<close> advances by the count \<^verbatim>\<open>WriteVarLen\<close> returns, which is the number of
  bytes it stored (lemma \<open>WriteVarLen_Inr\<close>), so the temporary buffer is the concatenation
  of what is stored in it; it holds at most 16 of its 32 bytes.
\<close>

definition event_bytes :: "byte \<Rightarrow> byte \<Rightarrow> byte \<Rightarrow> byte \<Rightarrow> byte list" where
  "event_bytes status bit1 bit2 bitc = [status, bit1] @ (if bitc = 2 then [bit2] else [])"

definition next_delta :: "byte list \<Rightarrow> byte \<Rightarrow> loop_state \<Rightarrow> (fault + loop_state) option" where
  "next_delta data event st =
     (if event AND 128 \<noteq> 0 then
        bindC (read_delta data (cur st) 0) (\<lambda>(c', dt).
        ret (st\<lparr>cur := c', delta_time := dt\<rparr>))
      else ret (st\<lparr>delta_time := 0\<rparr>))"

definition loop_body ::
  "(nat \<Rightarrow> byte \<times> byte) \<Rightarrow> byte list \<Rightarrow> MUSheader \<Rightarrow> nat \<Rightarrow> loop_state \<Rightarrow>
   (fault + loop_state) option" where
  "loop_body indet data hdr endp st0 =
     bindC (next_byte data st0) (\<lambda>(event, st).
     let channel = event AND 15 in
     bindC (WriteVarLen (delta_time st)) (\<lambda>(count, dbytes).
     let (abytes, st) = alloc_channel st channel in
     bindC (translate data hdr endp (indet (cur st0)) event channel st)
       (\<lambda>((status, bit1, bit2, bitc), st).
     bindC (flush_tmp (mctx st) (dbytes @ abytes @ event_bytes status bit1 bit2 bitc)) (\<lambda>c.
     next_delta data event (st\<lparr>mctx := c\<rparr>)))))"

partial_function (option) main_loop ::
  "(nat \<Rightarrow> byte \<times> byte) \<Rightarrow> byte list \<Rightarrow> MUSheader \<Rightarrow> nat \<Rightarrow> loop_state \<Rightarrow>
   (fault + loop_state) option" where
  "main_loop indet data hdr endp st =
     (if cur st < endp then
        (case loop_body indet data hdr endp st of
           None \<Rightarrow> None
         | Some (Inl e) \<Rightarrow> Some (Inl e)
         | Some (Inr st') \<Rightarrow> main_loop indet data hdr endp st')
      else Some (Inr st))"

declare main_loop.simps [code]

subsection \<open>mus2midi\<close>

definition le16 :: "byte \<Rightarrow> byte \<Rightarrow> 16 word" where
  "le16 lo hi = ucast lo OR push_bit 8 (ucast hi)"

text \<open>\<^verbatim>\<open>memcpy(&header, ctx->src_ptr, sizeof(header))\<close>.\<close>

definition read_header :: "byte list \<Rightarrow> (fault + MUSheader) option" where
  "read_header data =
     (if sizeof_MUSheader \<le> length data then
        ret \<lparr>ID = take 4 data,
             scoreLen = le16 (data ! 4) (data ! 5),
             scoreStart = le16 (data ! 6) (data ! 7),
             channels = le16 (data ! 8) (data ! 9),
             sec_channels = le16 (data ! 10) (data ! 11),
             instrCnt = le16 (data ! 12) (data ! 13),
             dummy = le16 (data ! 14) (data ! 15)\<rparr>
      else abort SrcOverread)"

text \<open>The context after the two \<^verbatim>\<open>calloc\<close>s.\<close>

definition init_ctx :: "byte list \<Rightarrow> 32 word \<Rightarrow> mus_ctx" where
  "init_ctx data sz =
     \<lparr>src = data, src_ptr = 0, srcsize = sz, datastart = 0,
      dst = (\<lambda>i. if i < unat DST_CHUNK then Some 0 else None),
      dst_cap = unat DST_CHUNK, dst_ptr = 0, dstsize = DST_CHUNK, dstrem = DST_CHUNK\<rparr>"

text \<open>
  The MIDI header, the track header, the tempo and the volume of the percussion channel.
  It returns the context, \<open>track_size_pos\<close> and \<open>begin_track_pos\<close>.
\<close>

definition write_preamble :: "mus_ctx \<Rightarrow> (fault + mus_ctx \<times> 32 word \<times> 32 word) option" where
  "write_preamble c =
     bindC (write1 c 0x4D) (\<lambda>c.
     bindC (write1 c 0x54) (\<lambda>c.
     bindC (write1 c 0x68) (\<lambda>c.
     bindC (write1 c 0x64) (\<lambda>c.
     bindC (write4 c 6) (\<lambda>c.
     bindC (write2 c 0) (\<lambda>c.
     bindC (write2 c 1) (\<lambda>c.
     bindC (write2 c 0x0059) (\<lambda>c.
     let begin_track_pos = getdstpos c in
     bindC (write1 c 0x4D) (\<lambda>c.
     bindC (write1 c 0x54) (\<lambda>c.
     bindC (write1 c 0x72) (\<lambda>c.
     bindC (write1 c 0x6B) (\<lambda>c.
     let track_size_pos = getdstpos c in
     bindC (skipdst c 4) (\<lambda>c.
     bindC (write1 c 0x00) (\<lambda>c.
     bindC (write1 c 0xff) (\<lambda>c.
     bindC (write2 c 0x5103) (\<lambda>c.
     bindC (write1 c (TEMPO AND 0x000000ff)) (\<lambda>c.
     bindC (write1 c (drop_bit 8 (TEMPO AND 0x0000ff00))) (\<lambda>c.
     bindC (write1 c (drop_bit 16 (TEMPO AND 0x00ff0000))) (\<lambda>c.
     bindC (write1 c 0x00) (\<lambda>c.
     bindC (write1 c 0xB9) (\<lambda>c.
     bindC (write1 c 0x07) (\<lambda>c.
     bindC (write1 c 127) (\<lambda>c.
     ret (c, track_size_pos, begin_track_pos))))))))))))))))))))))))"

text \<open>The state in which the main loop is entered.\<close>

definition init_loop :: "mus_ctx \<Rightarrow> MUSheader \<Rightarrow> loop_state" where
  "init_loop c hdr =
     \<lparr>mctx = c, cur = unat (scoreStart hdr), delta_time = 0,
      channel_volume = replicate MIDI_MAXCHANNELS 0x40,
      channelMap = (replicate MIDI_MAXCHANNELS (- 1))[15 := 9],
      currentChannel = 0, diag = []\<rparr>"

definition score_end :: "MUSheader \<Rightarrow> nat" where
  "score_end hdr = unat (scoreStart hdr) + unat (scoreLen hdr)"

text \<open>What follows the main loop: the track length, and the size.\<close>

definition finish :: "mus_ctx \<Rightarrow> 32 word \<Rightarrow> 32 word \<Rightarrow> (fault + mus_ctx) option" where
  "finish c track_size_pos begin_track_pos =
     (let current_pos = getdstpos c in
      bindC (seekdst c track_size_pos) (\<lambda>c.
      bindC (write4 c (current_pos - begin_track_pos - sizeof_MidiTrackChunk)) (\<lambda>c.
      bindC (seekdst c current_pos) (\<lambda>c.
      ret (c\<lparr>dstsize := word_of_nat (dst_ptr c)\<rparr>)))))"

text \<open>\<^verbatim>\<open>mus2midi\<close> after the check of the header.\<close>

definition convert ::
  "(nat \<Rightarrow> byte \<times> byte) \<Rightarrow> byte list \<Rightarrow> MUSheader \<Rightarrow> mus_ctx \<Rightarrow> (fault + mus_ctx) option" where
  "convert indet data hdr c =
     bindC (write_preamble c) (\<lambda>(c, track_size_pos, begin_track_pos).
     bindC (main_loop indet data hdr (score_end hdr) (init_loop c hdr)) (\<lambda>st.
     finish (mctx st) track_size_pos begin_track_pos))"

text \<open>The result \<open>None\<close> inside is the \<^verbatim>\<open>NULL\<close> that \<^verbatim>\<open>mus2midi\<close> returns.\<close>

definition mus2midi ::
  "(nat \<Rightarrow> byte \<times> byte) \<Rightarrow> byte list \<Rightarrow> 32 word \<Rightarrow> (fault + mus_ctx option) option" where
  "mus2midi indet data sz =
     (let c = init_ctx data sz in
      bindC (read_header data) (\<lambda>hdr.
      let c = c\<lparr>src_ptr := src_ptr c + sizeof_MUSheader\<rparr> in
      if channels hdr > word_of_nat (MIDI_MAXCHANNELS - 1) then ret None
      else bindC (convert indet data hdr c) (\<lambda>c. ret (Some c))))"

section \<open>The MIDI variable-length quantity, as the specification words it\<close>

text \<open>
  The standard encoding of \<open>n\<close>: its 7-bit groups, the most significant group first,
  every byte but the last with the high bit set. \<open>vlq_cont\<close> gives the bytes with
  the high bit set for the groups of its argument; zero has none, so \<open>vlq 0\<close> is the
  single byte \<open>0x00\<close>.
\<close>

function vlq_cont :: "nat \<Rightarrow> byte list" where
  "vlq_cont n = (if n = 0 then [] else vlq_cont (n div 128) @ [word_of_nat (n mod 128) OR 0x80])"
  by pat_completeness auto
termination
  by (relation "measure id") auto

declare vlq_cont.simps [simp del]

definition vlq :: "nat \<Rightarrow> byte list" where
  "vlq n = vlq_cont (n div 128) @ [word_of_nat (n mod 128)]"

text \<open>
  The reader: accumulate \<open>value * 128 + (byte AND 0x7F)\<close> while the high bit is set.
\<close>

fun vlq_decode :: "int \<Rightarrow> byte list \<Rightarrow> int" where
  "vlq_decode acc [] = acc"
| "vlq_decode acc (b # bs) =
     (let acc' = acc * 128 + uint (b AND 0x7F) in
      if b AND 0x80 \<noteq> 0 then vlq_decode acc' bs else acc')"

text \<open>The value of a \<^verbatim>\<open>long\<close> whose bytes, lowest first, are \<open>bs\<close>.\<close>

fun le_int :: "byte list \<Rightarrow> int" where
  "le_int [] = 0"
| "le_int (b # bs) = uint b + 256 * le_int bs"

section \<open>Observations, inputs and invariants\<close>

text \<open>The four bytes of a 32-bit value, most significant first.\<close>

definition be32 :: "32 word \<Rightarrow> byte list" where
  "be32 w = [ucast (drop_bit 24 w), ucast (drop_bit 16 w), ucast (drop_bit 8 w), ucast w]"

text \<open>The bytes of the output below the write cursor.\<close>

definition emitted :: "mus_ctx \<Rightarrow> byte option list" where
  "emitted c = map (dst c) [0..<dst_ptr c]"

text \<open>
  A MUS file with the score at offset 16: the tag, the length of the score, its offset,
  the number of primary channels and four fields that are zero, then the score.
\<close>

definition mus_file :: "nat \<Rightarrow> nat \<Rightarrow> byte list \<Rightarrow> byte list" where
  "mus_file nchannels len score =
     [0x4D, 0x55, 0x53, 0x1A, word_of_nat len, 0, 16, 0, word_of_nat nchannels, 0, 0, 0, 0, 0, 0, 0] @ score"

text \<open>
  A KeyOn on channel 0 (note 60, volume 100) and the end of the score; a ChannelMode
  event with the index 12 and the end of the score; an event of type 5 on channel 15
  and the end of the score; a ControllerChange with the controller number 15; a header
  that declares 16 channels.
\<close>

definition scenario :: "byte list" where
  "scenario = mus_file 1 4 [0x10, 0xBC, 0x64, 0x60]"

definition mode_input :: "byte list" where
  "mode_input = mus_file 1 3 [0x30, 0x0C, 0x60]"

definition unknown_input :: "byte list" where
  "unknown_input = mus_file 1 2 [0x5F, 0x60]"

definition controller_input :: "byte list" where
  "controller_input = mus_file 1 4 [0x40, 0x0F, 0x00, 0x60]"

definition rejected_input :: "byte list" where
  "rejected_input = mus_file 16 1 [0x60]"

text \<open>
  A score that ends inside a delta time: a KeyOff on channel 0 whose event byte announces
  a delta time, the note 60, and the byte \<open>0x80\<close>, which announces one more byte of the
  delta time. With it its header, a state in which the main loop can be entered on it,
  and values for \<open>bit1\<close> and \<open>bit2\<close>.
\<close>

definition overrun_input :: "byte list" where
  "overrun_input = mus_file 1 3 [0x80, 0x3C, 0x80]"

definition overrun_hdr :: MUSheader where
  "overrun_hdr = \<lparr>ID = [0x4D, 0x55, 0x53, 0x1A], scoreLen = 3, scoreStart = 16, channels = 1,
                  sec_channels = 0, instrCnt = 0, dummy = 0\<rparr>"

definition overrun_start :: loop_state where
  "overrun_start = init_loop (init_ctx overrun_input 19) overrun_hdr"

definition no_junk :: "nat \<Rightarrow> byte \<times> byte" where
  "no_junk i = (0, 0)"

text \<open>The header of \<open>scenario\<close> and a state in which the main loop can be entered on it.\<close>

definition scenario_hdr :: MUSheader where
  "scenario_hdr = \<lparr>ID = [0x4D, 0x55, 0x53, 0x1A], scoreLen = 4, scoreStart = 16, channels = 1,
                   sec_channels = 0, instrCnt = 0, dummy = 0\<rparr>"

definition scenario_start :: loop_state where
  "scenario_start = init_loop (init_ctx scenario 20) scenario_hdr"

text \<open>
  The state after \<open>n\<close> iterations of the main loop, or the state in which the loop
  ended when it ended before.
\<close>

fun loop_iter ::
  "(nat \<Rightarrow> byte \<times> byte) \<Rightarrow> byte list \<Rightarrow> MUSheader \<Rightarrow> nat \<Rightarrow> nat \<Rightarrow> loop_state \<Rightarrow>
   (fault + loop_state) option" where
  "loop_iter indet data hdr endp 0 st = ret st"
| "loop_iter indet data hdr endp (Suc n) st =
     (if cur st < endp
      then bindC (loop_body indet data hdr endp st) (loop_iter indet data hdr endp n)
      else ret st)"

text \<open>
  The channel map and the counter at the head of the loop, and their change in an
  iteration whose event is on channel \<open>ch\<close>.
\<close>

definition chan_inv :: "loop_state \<Rightarrow> bool" where
  "chan_inv st \<longleftrightarrow>
     length (channelMap st) = 16 \<and> channelMap st ! 15 = 9 \<and>
     0 \<le> currentChannel st \<and> currentChannel st \<noteq> 9 \<and>
     (\<forall>ch<15. channelMap st ! ch = - 1 \<or>
        (0 \<le> channelMap st ! ch \<and> channelMap st ! ch < currentChannel st \<and> channelMap st ! ch \<noteq> 9))"

definition chan_step :: "nat \<Rightarrow> loop_state \<Rightarrow> loop_state \<Rightarrow> bool" where
  "chan_step ch st st' \<longleftrightarrow>
     (if channelMap st ! ch < 0
      then channelMap st' = (channelMap st)[ch := currentChannel st] \<and>
           currentChannel st' =
             (if currentChannel st + 1 = 9 then currentChannel st + 2 else currentChannel st + 1)
      else channelMap st' = channelMap st \<and> currentChannel st' = currentChannel st)"

text \<open>The bookkeeping of the sink, at the head of the loop.\<close>

definition sink_inv :: "nat \<Rightarrow> (nat \<Rightarrow> byte option) \<Rightarrow> loop_state \<Rightarrow> bool" where
  "sink_inv endp pre st \<longleftrightarrow>
     33 \<le> dst_ptr (mctx st) \<and>
     dst_ptr (mctx st) + 8159 \<le> unat (dstsize (mctx st)) \<and>
     unat (dstsize (mctx st)) \<le> 8192 + 8208 * min (cur st) endp \<and>
     (\<forall>i<33. dst (mctx st) i = pre i)"

section \<open>WriteVarLen\<close>

lemma and_127_int: "(x::int) AND 127 = x mod 128"
proof -
  have "x AND mask 7 = x mod 2 ^ 7"
    by (simp only: take_bit_eq_mask [symmetric] take_bit_eq_mod)
  then show ?thesis by (simp add: mask_eq_exp_minus_1)
qed

lemma and_128_int: "((x::int) AND 128 \<noteq> 0) = odd (x div 128)"
proof -
  have "(128::int) = 2 ^ 7" by simp
  then have "(x AND 128 = 0) = (\<not> bit x 7)"
    by (simp only: and_exp_eq_0_iff_not_bit)
  then show ?thesis by (simp add: bit_iff_odd)
qed

lemma and_128_byte: "((b::byte) AND 128 \<noteq> 0) = odd (uint b div 128)"
proof -
  have "(b AND 128 = 0) = (uint (b AND 128) = 0)" by (simp add: uint_0_iff)
  also have "uint (b AND 128) = uint b AND 128" by (simp add: uint_and)
  finally show ?thesis using and_128_int [of "uint b"] by simp
qed

lemma and_127_byte: "uint ((b::byte) AND 127) = uint b mod 128"
  using and_127_int [of "uint b"] by (simp add: uint_and)

lemma uint_byte_lt: "uint (b::byte) < 256"
  using uint_bounded [of b] by simp

lemma low_byte: "(word_of_int (uint b + 256 * k) :: byte) = b"
proof -
  have "(word_of_int (uint b + 256 * k) :: byte) = word_of_int (uint b) + 256 * word_of_int k"
    by simp
  also have "(256 :: byte) = 0" by simp
  finally show ?thesis by simp
qed

lemma byte_256: "(b::byte) + 256 * w = b"
proof -
  have z: "(256 :: byte) = 0" by simp
  have "b + 256 * w = b + 0 * w" by (simp only: z)
  then show ?thesis by simp
qed

lemma drop_low_byte: "drop_bit 8 (uint (b::byte) + 256 * k) = k"
  using uint_byte_lt [of b] by (simp add: drop_bit_eq_div)

lemma high_bit_low_byte: "((uint (b::byte) + 256 * k) AND 0x80 \<noteq> 0) = (b AND 0x80 \<noteq> 0)"
proof -
  have "(uint b + 256 * k) div 128 = uint b div 128 + 2 * k" by simp
  then show ?thesis by (simp add: and_128_int and_128_byte)
qed

lemma uint_group: "g < 128 \<Longrightarrow> uint (word_of_nat g :: byte) = int g"
  by (simp add: uint_nat unat_of_nat)

lemma cont_byte: 
  assumes "g < 128" shows "uint ((word_of_nat g :: byte) OR 0x80) = 0x80 + int g"
proof -
  have "int g div 128 = 0" using assms by simp
  then have "int g AND 128 = 0" using and_128_int [of "int g"] by simp
  then have "int g + 128 = int g OR 128" by (rule disjunctive_add_eq_or)
  moreover have "uint ((word_of_nat g :: byte) OR 0x80) = int g OR 128"
    using assms by (simp add: uint_or uint_group)
  ultimately show ?thesis by simp
qed

lemma cont_high: "g < 128 \<Longrightarrow> ((word_of_nat g :: byte) OR 0x80) AND 0x80 \<noteq> 0"
  by (simp add: and_128_byte cont_byte)

lemma last_low: "g < 128 \<Longrightarrow> (word_of_nat g :: byte) AND 0x80 = 0"
  using and_128_byte [of "word_of_nat g"] by (simp add: uint_group)
 
lemma last_val: "g < 128 \<Longrightarrow> uint ((word_of_nat g :: byte) AND 0x7f) = int g"
  by (simp add: and_127_byte uint_group)

lemma cont_val: "g < 128 \<Longrightarrow> uint (((word_of_nat g :: byte) OR 0x80) AND 0x7f) = int g"
  by (simp add: and_127_byte cont_byte)


lemma le_int_nonneg: "0 \<le> le_int bs"
  by (induction bs) auto

lemma le_int_append: "le_int (xs @ ys) = le_int xs + 256 ^ length xs * le_int ys"
  by (induction xs) (auto simp: algebra_simps)

lemma le_int_bound: "le_int bs < 256 ^ length bs"
proof (induction bs)
  case Nil then show ?case by simp
next
  case (Cons b bs)
  have "le_int bs + 1 \<le> 256 ^ length bs" using Cons by simp
  then have "256 * (le_int bs + 1) \<le> 256 * 256 ^ length bs" by (rule mult_left_mono) simp
  then show ?case using uint_byte_lt [of b] by (simp add: algebra_simps)
qed

lemma le_int_suffix: "le_int ys \<le> le_int (xs @ ys)"
proof -
  have "1 * le_int ys \<le> 256 ^ length xs * le_int ys"
    by (rule mult_right_mono) (simp_all add: le_int_nonneg)
  then show ?thesis using le_int_nonneg [of xs] by (simp add: le_int_append)
qed

lemma wvl_emit_le_int:
  "bs \<noteq> [] \<Longrightarrow> \<forall>b \<in> set (butlast bs). b AND 0x80 \<noteq> 0 \<Longrightarrow> last bs AND 0x80 = 0 \<Longrightarrow>
   wvl_emit (le_int bs) c out = Some (c + int (length bs), out @ bs)"
proof (induction bs arbitrary: c out)
  case Nil
  then show ?case by simp
next
  case (Cons b bs)
  show ?case
  proof (cases "bs = []")
    case True
    with Cons.prems have "b AND 0x80 = 0" by simp
    then have "\<not> odd (uint b div 128)" using and_128_byte [of b] by simp
    with True show ?thesis
      by (subst wvl_emit.simps) (simp add: Let_def and_128_int)
  next
    case False
    with Cons.prems have hb: "b AND 0x80 \<noteq> 0"
      and rest: "\<forall>b \<in> set (butlast bs). b AND 0x80 \<noteq> 0" "last bs AND 0x80 = 0"
      by simp_all
    have "wvl_emit (le_int (b # bs)) c out = wvl_emit (le_int bs) (c + 1) (out @ [b])"
      using hb by (subst wvl_emit.simps) (simp add: Let_def high_bit_low_byte byte_256 drop_low_byte)
    also have "\<dots> = Some (c + 1 + int (length bs), (out @ [b]) @ bs)"
      by (rule Cons.IH [OF False rest])
    finally show ?thesis by simp
  qed
qed

lemma wvl_pack_le_int:
  "0 \<le> v \<Longrightarrow> le_int (vlq_cont (nat v div 128) @ bs) \<le> LONG_MAX \<Longrightarrow>
   wvl_pack v (le_int bs) = Inr (le_int (vlq_cont (nat v div 128) @ bs))"
proof (induction v "le_int bs" arbitrary: bs rule: wvl_pack.induct)
  case (1 v)
  define v' where "v' = v div 128"
  have v'0: "0 \<le> v'" using "1.prems"(1) by (simp add: v'_def)
  have nv: "nat v div 128 = nat v'" using "1.prems"(1) by (simp add: v'_def nat_div_distrib)
  show ?case
  proof (cases "v' > 0")
    case False
    then have "nat v' = 0" by simp
    then show ?thesis using False
      by (subst wvl_pack.simps) (simp add: nv vlq_cont.simps drop_bit_eq_div v'_def)
  next
    case True
    define g where "g = (word_of_nat (nat v' mod 128) OR 0x80 :: byte)"
    have glt: "nat v' mod 128 < 128" by simp
    have gval: "uint g = 0x80 + v' mod 128"
      using cont_byte [OF glt] v'0 by (simp add: g_def zmod_int)
    have unfold: "vlq_cont (nat v') = vlq_cont (nat v' div 128) @ [g]"
      using True by (subst vlq_cont.simps) (simp add: g_def)
    have buf: "push_bit 8 (le_int bs) + 0x80 + (v' AND 0x7f) = le_int (g # bs)"
      by (simp add: gval and_127_int push_bit_eq_mult)
    have fits: "le_int (g # bs) \<le> LONG_MAX"
    proof -
      have "le_int (g # bs) \<le> le_int (vlq_cont (nat v' div 128) @ (g # bs))"
        by (rule le_int_suffix)
      then show ?thesis using "1.prems"(2) by (simp add: nv unfold)
    qed
    have "wvl_pack v (le_int bs) = wvl_pack v' (le_int (g # bs))"
      using True fits by (subst wvl_pack.simps) (simp add: Let_def drop_bit_eq_div v'_def [symmetric] buf del: le_int.simps)
    also have "\<dots> = Inr (le_int (vlq_cont (nat v' div 128) @ (g # bs)))"
    proof (rule "1.hyps")
      show "v' = drop_bit 7 v" by (simp add: v'_def drop_bit_eq_div)
      show "0 < v'" by (rule True)
      show "le_int (g # bs) = push_bit 8 (le_int bs) + 0x80 + (v' AND 0x7f)" by (rule buf [symmetric])
      show "le_int (g # bs) \<le> LONG_MAX" by (rule fits)
      show "0 \<le> v'" by (rule v'0)
      show "le_int (vlq_cont (nat v' div 128) @ g # bs) \<le> LONG_MAX"
        using "1.prems"(2) by (simp add: nv unfold)
    qed
    finally show ?thesis by (simp add: nv unfold)
  qed
qed


lemma vlq_cont_high: "b \<in> set (vlq_cont n) \<Longrightarrow> b AND 0x80 \<noteq> 0"
proof (induction n rule: vlq_cont.induct)
  case (1 n)
  show ?case
  proof (cases "n = 0")
    case True
    with "1.prems" show ?thesis by (simp add: vlq_cont.simps)
  next
    case False
    have "vlq_cont n = vlq_cont (n div 128) @ [word_of_nat (n mod 128) OR 0x80]"
      using False by (subst vlq_cont.simps) simp
    with "1.prems" have "b \<in> set (vlq_cont (n div 128)) \<or> b = word_of_nat (n mod 128) OR 0x80"
      by auto
    then show ?thesis
    proof
      assume "b \<in> set (vlq_cont (n div 128))"
      with False show ?thesis by (rule "1.IH")
    next
      assume "b = word_of_nat (n mod 128) OR 0x80"
      then show ?thesis using cont_high [of "n mod 128"] by simp
    qed
  qed
qed

lemma length_vlq_cont: "n < 128 ^ k \<Longrightarrow> length (vlq_cont n) \<le> k"
proof (induction k arbitrary: n)
  case 0
  then show ?case by (simp add: vlq_cont.simps)
next
  case (Suc k)
  show ?case
  proof (cases "n = 0")
    case True
    then show ?thesis by (simp add: vlq_cont.simps)
  next
    case False
    have "n div 128 < 128 ^ k" using Suc.prems by (simp add: less_mult_imp_div_less mult.commute)
    then have "length (vlq_cont (n div 128)) \<le> k" by (rule Suc.IH)
    then show ?thesis using False by (subst vlq_cont.simps) simp
  qed
qed

lemma vlq_decode_cont:
  "vlq_decode acc (vlq_cont n @ rest) = vlq_decode (acc * 128 ^ length (vlq_cont n) + int n) rest"
proof (induction n arbitrary: rest rule: vlq_cont.induct)
  case (1 n)
  show ?case
  proof (cases "n = 0")
    case True
    then show ?thesis by (simp add: vlq_cont.simps)
  next
    case False
    define g where "g = (word_of_nat (n mod 128) OR 0x80 :: byte)"
    define l where "l = length (vlq_cont (n div 128))"
    have unfold: "vlq_cont n = vlq_cont (n div 128) @ [g]"
      using False by (subst vlq_cont.simps) (simp add: g_def)
    have gh: "g AND 0x80 \<noteq> 0" unfolding g_def by (rule cont_high) simp
    have gv: "uint (g AND 0x7f) = int (n mod 128)" unfolding g_def by (rule cont_val) simp
    have "vlq_decode acc (vlq_cont n @ rest) = vlq_decode acc (vlq_cont (n div 128) @ (g # rest))"
      by (simp add: unfold)
    also have "\<dots> = vlq_decode (acc * 128 ^ l + int (n div 128)) (g # rest)"
      unfolding l_def using False by (rule "1.IH")
    also have "\<dots> = vlq_decode ((acc * 128 ^ l + int (n div 128)) * 128 + int (n mod 128)) rest"
      using gh gv by (simp add: Let_def)
    also have "(acc * 128 ^ l + int (n div 128)) * 128 + int (n mod 128) = acc * 128 ^ Suc l + int n"
      by (simp add: algebra_simps zdiv_int zmod_int)
    finally show ?thesis by (simp add: unfold l_def)
  qed
qed

lemma vlq_decode_vlq: "vlq_decode 0 (vlq n) = int n"
proof -
  have "vlq_decode 0 (vlq n) = vlq_decode (int (n div 128)) [word_of_nat (n mod 128)]"
    by (simp add: vlq_def vlq_decode_cont)
  also have "\<dots> = int (n div 128) * 128 + int (n mod 128)"
    using last_low [of "n mod 128"] last_val [of "n mod 128"] by (simp add: Let_def)
  finally show ?thesis by (simp add: zdiv_int zmod_int)
qed

lemma WriteVarLen_vlq:
  assumes "0 \<le> v" and "length (vlq (nat v)) \<le> 7"
  shows "WriteVarLen v = Some (Inr (int (length (vlq (nat v))), vlq (nat v)))"
proof -
  define g0 where "g0 = (word_of_nat (nat v mod 128) :: byte)"
  have g0v: "uint g0 = v mod 128" using assms(1) by (simp add: g0_def uint_group zmod_int)
  have start: "v AND 0x7f = le_int [g0]" by (simp add: and_127_int g0v)
  have v: "vlq (nat v) = vlq_cont (nat v div 128) @ [g0]" by (simp add: vlq_def g0_def)
  have "le_int (vlq (nat v)) < 256 ^ length (vlq (nat v))" by (rule le_int_bound)
  also have "\<dots> \<le> (256::int) ^ 7" using assms(2) by (rule power_increasing) simp
  finally have fits: "le_int (vlq_cont (nat v div 128) @ [g0]) \<le> LONG_MAX"
    by (simp add: v LONG_MAX_def)
  have pack: "wvl_pack v (v AND 0x7f) = Inr (le_int (vlq (nat v)))"
    unfolding start v using assms(1) fits by (rule wvl_pack_le_int)
  have emit: "wvl_emit (le_int (vlq (nat v))) 0 [] = Some (0 + int (length (vlq (nat v))), [] @ vlq (nat v))"
  proof (rule wvl_emit_le_int)
    show "vlq (nat v) \<noteq> []" by (simp add: v)
    show "\<forall>b\<in>set (butlast (vlq (nat v))). b AND 0x80 \<noteq> 0" by (simp add: v vlq_cont_high)
    show "last (vlq (nat v)) AND 0x80 = 0" using last_low [of "nat v mod 128"] by (simp add: v g0_def)
  qed
  show ?thesis by (simp add: WriteVarLen_def pack emit)
qed

lemma length_vlq: "n < 128 ^ k \<Longrightarrow> length (vlq n) \<le> k \<or> length (vlq n) = 1"
proof (cases k)
  case 0
  assume "n < 128 ^ k"
  with 0 show ?thesis by (simp add: vlq_def vlq_cont.simps)
next
  case (Suc j)
  assume "n < 128 ^ k"
  with Suc have "n div 128 < 128 ^ j" by (simp add: less_mult_imp_div_less mult.commute)
  then have "length (vlq_cont (n div 128)) \<le> j" by (rule length_vlq_cont)
  with Suc show ?thesis by (simp add: vlq_def)
qed

text \<open>
  Claim C8. For a value \<open>v\<close> with \<open>0 \<le> v < 2^28\<close>, \<^verbatim>\<open>WriteVarLen\<close> returns, and the
  bytes it stores are the standard variable-length quantity of \<open>v\<close>: at most four bytes,
  the 7-bit groups most significant first, the high bit set on every byte but the last,
  the single byte \<open>0x00\<close> for zero. Reading the bytes back gives \<open>v\<close>, and the count
  returned is the number of bytes stored.
\<close>

theorem WriteVarLen_standard:
  assumes "0 \<le> v" and "v < 2 ^ 28"
  shows "\<exists>bs. WriteVarLen v = Some (Inr (int (length bs), bs)) \<and> bs = vlq (nat v) \<and>
           bs \<noteq> [] \<and> length bs \<le> 4 \<and>
           (\<forall>b \<in> set (butlast bs). b AND 0x80 \<noteq> 0) \<and> last bs AND 0x80 = 0 \<and>
           vlq_decode 0 bs = v \<and> (v = 0 \<longrightarrow> bs = [0x00])"
proof -
  have "nat v < 128 ^ 4" using assms by simp
  then have len: "length (vlq (nat v)) \<le> 4" using length_vlq [of "nat v" 4] by auto
  then have "length (vlq (nat v)) \<le> 7" by simp
  with assms(1) have w: "WriteVarLen v = Some (Inr (int (length (vlq (nat v))), vlq (nat v)))"
    by (rule WriteVarLen_vlq)
  have hi: "b AND 0x80 \<noteq> 0" if "b \<in> set (butlast (vlq (nat v)))" for b
  proof -
    from that have "b \<in> set (vlq_cont (nat v div 128))" by (simp add: vlq_def)
    then show ?thesis by (rule vlq_cont_high)
  qed
  have lo: "last (vlq (nat v)) AND 0x80 = 0"
    using last_low [of "nat v mod 128"] by (simp add: vlq_def)
  have dec: "vlq_decode 0 (vlq (nat v)) = v" using assms(1) by (simp add: vlq_decode_vlq)
  have zero: "v = 0 \<longrightarrow> vlq (nat v) = [0x00]" by (simp add: vlq_def vlq_cont.simps)
  show ?thesis using w len hi lo dec zero by (auto simp: vlq_def)
qed


theorem WriteVarLen_standard_witness:
  "WriteVarLen 300 = Some (Inr (2, [0x82, 0x2C])) \<and> vlq_decode 0 [0x82, 0x2C] = 300"
proof -
  have v: "vlq 300 = [0x82, 0x2C]" by (simp add: vlq_def vlq_cont.simps)
  have "(0::int) \<le> 300" and "(300::int) < 2 ^ 28" by simp_all
  then show ?thesis using WriteVarLen_standard [of 300] by (simp add: v)
qed

section \<open>The main loop\<close>

lemma bindC_Inr_iff: "bindC m f = Some (Inr y) \<longleftrightarrow> (\<exists>x. m = Some (Inr x) \<and> f x = Some (Inr y))"
  by (auto simp: bindC_def split: option.splits sum.splits)

lemma ret_Inr_iff: "ret x = Some (Inr y) \<longleftrightarrow> x = y"
  by (simp add: ret_def)

lemma abort_not_Inr: "abort e \<noteq> Some (Inr y)"
  by (simp add: abort_def)

lemmas comp_simps = bindC_Inr_iff ret_Inr_iff abort_not_Inr

lemma rd_Inr: "rd data i = Some (Inr b) \<longleftrightarrow> i < length data \<and> b = data ! i"
  by (auto simp: rd_def ret_def abort_def)

lemma next_byte_Inr:
  "next_byte data st = Some (Inr (b, st')) \<longleftrightarrow> cur st < length data \<and> b = data ! cur st \<and> st' = st\<lparr>cur := cur st + 1\<rparr>"
  by (auto simp: next_byte_def comp_simps rd_Inr)

lemma next_byte_Inr':
  "next_byte data st = Some (Inr x) \<longleftrightarrow> cur st < length data \<and> x = (data ! cur st, st\<lparr>cur := cur st + 1\<rparr>)"
  by (cases x) (auto simp: next_byte_Inr)

lemma ret_not_None: "ret x \<noteq> None"
  by (simp add: ret_def)

lemma abort_not_None: "abort e \<noteq> None"
  by (simp add: abort_def)

lemma bindC_not_None: "m \<noteq> None \<Longrightarrow> (\<And>x. f x \<noteq> None) \<Longrightarrow> bindC m f \<noteq> None"
  by (auto simp: bindC_def split: option.splits sum.splits)

lemma if_not_None: "x \<noteq> None \<Longrightarrow> y \<noteq> None \<Longrightarrow> (if b then x else y) \<noteq> None"
  by simp

lemma prod_not_None: "(\<And>a b. f a b \<noteq> None) \<Longrightarrow> (case p of (a, b) \<Rightarrow> f a b) \<noteq> None"
  by (cases p) simp

lemma prod_app_not_None:
  "(\<And>a b. f a b c \<noteq> None) \<Longrightarrow> (case p of (a, b) \<Rightarrow> f a b) c \<noteq> None"
  by (cases p) simp

lemma rd_not_None: "rd data i \<noteq> None"
  by (simp add: rd_def ret_def abort_def)

lemma next_byte_not_None: "next_byte data st \<noteq> None"
  unfolding next_byte_def by (intro bindC_not_None rd_not_None ret_not_None)

lemma vol_set_not_None: "vol_set st i v \<noteq> None"
  by (simp add: vol_set_def ret_def abort_def)

lemma vol_get_not_None: "vol_get st i \<noteq> None"
  by (simp add: vol_get_def ret_def abort_def)

lemma midimap_at_not_None: "midimap_at i \<noteq> None"
  by (simp add: midimap_at_def ret_def abort_def)

lemmas not_None_intros = bindC_not_None if_not_None prod_app_not_None prod_not_None
  ret_not_None abort_not_None
  rd_not_None next_byte_not_None vol_set_not_None vol_get_not_None midimap_at_not_None

lemma translate_not_None: "translate data hdr endp u ev ch st \<noteq> None"
  unfolding translate_def Let_def by (intro not_None_intros)

lemma translate_Inr:
  assumes "translate data hdr endp u ev ch st = Some (Inr (r, st'))"
  shows "mctx st' = mctx st \<and> cur st \<le> cur st' \<and> channelMap st' = channelMap st \<and>
         currentChannel st' = currentChannel st \<and> delta_time st' = delta_time st"
  using assms
  by (auto simp: translate_def bindC_def Let_def next_byte_def rd_def ret_def abort_def
        vol_set_def vol_get_def midimap_at_def check_controller_def
        split: option.splits sum.splits prod.splits if_splits)


lemma wvl_pack_range:
  "0 \<le> b \<Longrightarrow> b \<le> LONG_MAX \<Longrightarrow> wvl_pack v b = Inr b' \<Longrightarrow> 0 \<le> b' \<and> b' \<le> LONG_MAX"
proof (induction v b rule: wvl_pack.induct)
  case (1 v b)
  show ?case
  proof (cases "drop_bit 7 v > 0")
    case False
    with "1.prems" show ?thesis by (simp add: wvl_pack.simps)
  next
    case True
    define b1 where "b1 = push_bit 8 b + 0x80 + (drop_bit 7 v AND 0x7f)"
    have b1_nonneg: "0 \<le> b1"
      using "1.prems"(1) by (simp add: b1_def push_bit_eq_mult and_127_int)
    show ?thesis
    proof (cases "b1 \<le> LONG_MAX")
      case False
      with True "1.prems"(3) show ?thesis
        by (simp add: wvl_pack.simps [of v b] Let_def b1_def)
    next
      case fits: True
      with True "1.prems"(3) have "wvl_pack (drop_bit 7 v) b1 = Inr b'"
        by (simp add: wvl_pack.simps [of v b] Let_def b1_def)
      with True fits b1_nonneg show ?thesis
        using "1.IH" [of "drop_bit 7 v" b1] by (simp add: b1_def)
    qed
  qed
qed

lemma wvl_emit_total:
  "0 \<le> b \<Longrightarrow> b < 256 ^ k \<Longrightarrow>
   \<exists>bs. wvl_emit b c out = Some (c + int (length bs), out @ bs) \<and> 1 \<le> length bs \<and> length bs \<le> k + 1"
proof (induction k arbitrary: b c out)
  case 0
  then have "b = 0" by simp
  then have "wvl_emit b c out = Some (c + int (length [0::byte]), out @ [0])"
    by (subst wvl_emit.simps) simp
  then show ?case by (intro exI [of _ "[0]"]) simp
next
  case (Suc k)
  show ?case
  proof (cases "b AND 0x80 \<noteq> 0")
    case False
    then have "wvl_emit b c out = Some (c + int (length [word_of_int b :: byte]), out @ [word_of_int b])"
      by (subst wvl_emit.simps) simp
    then show ?thesis by (intro exI [of _ "[word_of_int b]"]) simp
  next
    case True
    have "0 \<le> drop_bit 8 b" using Suc.prems(1) by simp
    moreover have "drop_bit 8 b < 256 ^ k"
      using Suc.prems by (simp add: drop_bit_eq_div)
    ultimately obtain bs where
      bs: "wvl_emit (drop_bit 8 b) (c + 1) (out @ [word_of_int b]) =
             Some (c + 1 + int (length bs), (out @ [word_of_int b]) @ bs)"
          "1 \<le> length bs" "length bs \<le> k + 1"
      using Suc.IH [of "drop_bit 8 b" "c + 1" "out @ [word_of_int b]"] by blast
    have "wvl_emit b c out = Some (c + int (length (word_of_int b # bs)), out @ (word_of_int b # bs))"
      using True bs(1) by (subst wvl_emit.simps) simp
    then show ?thesis using bs(3) by (intro exI [of _ "word_of_int b # bs"]) simp
  qed
qed

lemma WriteVarLen_cases:
  "(\<exists>e. WriteVarLen v = Some (Inl e)) \<or>
   (\<exists>bs. WriteVarLen v = Some (Inr (int (length bs), bs)) \<and> 1 \<le> length bs \<and> length bs \<le> 9)"
proof (cases "wvl_pack v (v AND 0x7f)")
  case (Inl e)
  then show ?thesis by (simp add: WriteVarLen_def)
next
  case (Inr b)
  have "0 \<le> v AND 0x7f" and "v AND 0x7f \<le> LONG_MAX"
    by (simp_all add: and_127_int LONG_MAX_def) 
  with Inr have "0 \<le> b" and "b \<le> LONG_MAX" using wvl_pack_range by blast+
  then have "b < 256 ^ 8" by (simp add: LONG_MAX_def)
  with \<open>0 \<le> b\<close> obtain bs where "wvl_emit b 0 [] = Some (0 + int (length bs), [] @ bs)"
    "1 \<le> length bs" "length bs \<le> 8 + 1"
    using wvl_emit_total [of b 8 0 "[]"] by blast
  with Inr show ?thesis by (simp add: WriteVarLen_def)
qed

lemma WriteVarLen_not_None: "WriteVarLen v \<noteq> None"
  using WriteVarLen_cases [of v] by auto

lemma WriteVarLen_Inr:
  "WriteVarLen v = Some (Inr (n, bs)) \<Longrightarrow> n = int (length bs) \<and> 1 \<le> length bs \<and> length bs \<le> 9"
  using WriteVarLen_cases [of v] by auto

lemma read_delta_Inr: "read_delta data c dt = Some (Inr (c', dt')) \<Longrightarrow> c < c'"
proof (induction data c dt rule: read_delta.induct)
  case (1 data c dt)
  from "1.prems" show ?case
    by (subst (asm) read_delta.simps)
       (auto simp: Let_def ret_def abort_def split: if_splits dest!: "1.IH" [OF _ refl])
qed

lemma read_delta_not_None: "read_delta data c dt \<noteq> None"
proof (induction data c dt rule: read_delta.induct)
  case (1 data c dt)
  show ?case
    by (subst read_delta.simps) (auto simp: Let_def ret_def abort_def dest!: "1.IH" [OF _ refl])
qed

lemma unat_add_nat32:
  "unat (s :: 32 word) + n < 2 ^ 32 \<Longrightarrow> unat (s + word_of_nat n) = unat s + n"
  by (simp add: unat_word_ariths unat_of_nat)

lemma unat_add_chunk:
  "unat (s :: 32 word) + 8192 < 2 ^ 32 \<Longrightarrow> unat (s + DST_CHUNK) = unat s + 8192"
  using unat_add_nat32 [of s 8192] by (simp add: DST_CHUNK_def)

lemma unat_of_nat32: "p < 2 ^ 32 \<Longrightarrow> unat (word_of_nat p :: 32 word) = p"
  by (simp add: unat_of_nat)

lemma store_bytes_below: "i < p \<Longrightarrow> store_bytes m p bs i = m i"
  by (induction bs arbitrary: m p) auto

lemma store_bytes_at: "p \<le> i \<Longrightarrow> i < p + length bs \<Longrightarrow> store_bytes m p bs i = Some (bs ! (i - p))"
proof (induction bs arbitrary: m p)
  case Nil
  then show ?case by simp
next
  case (Cons b bs)
  show ?case
  proof (cases "i = p")
    case True
    then show ?thesis by (simp add: store_bytes_below)
  next
    case False
    with Cons.prems have "Suc p \<le> i" "i < Suc p + length bs" by simp_all
    then have "store_bytes (m(p := Some b)) (Suc p) bs i = Some (bs ! (i - Suc p))"
      by (rule Cons.IH)
    moreover have "(b # bs) ! (i - p) = bs ! (i - Suc p)"
      using False Cons.prems(1) by (simp add: nth_Cons')
    ultimately show ?thesis by simp
  qed
qed

text \<open>The effect of one flush on the bookkeeping of the sink.\<close>

lemma flush_tmp_Inr:
  assumes "flush_tmp c tmp = Some (Inr c')"
    and "length tmp \<le> 16"
    and "33 \<le> dst_ptr c"
    and "dst_ptr c + 8159 \<le> unat (dstsize c)"
    and "unat (dstsize c) + 8208 < 2 ^ 32"
  shows "dst_ptr c' = dst_ptr c + length tmp \<and>
         dst_ptr c' + 8159 \<le> unat (dstsize c') \<and>
         unat (dstsize c') \<le> unat (dstsize c) + 8208 \<and>
         (\<forall>i<33. dst c' i = dst c i) \<and> src c' = src c"
proof -
  have "unat (dstsize c) < 2 ^ 32"
    by (rule order_less_le_trans [OF unsigned_less]) simp
  with assms(4) have p32: "dst_ptr c < 2 ^ 32" by simp
  define c1 where "c1 = (if dstrem c < 1024 then resize_dst c else c)"
  have c1: "dst_ptr c1 = dst_ptr c \<and> dst_ptr c1 + 8159 \<le> unat (dstsize c1) \<and>
            unat (dstsize c1) \<le> unat (dstsize c) + 8192 \<and> (\<forall>i<33. dst c1 i = dst c i) \<and> src c1 = src c"
    using assms(3,4,5) p32
    by (auto simp: c1_def resize_dst_def Let_def unat_add_chunk unat_of_nat32)
  show ?thesis
  proof (cases "tmp = []")
    case True
    with assms(1) have "c' = c" by (simp add: flush_tmp_def ret_def)
    then show ?thesis using True assms by simp
  next
    case False
    from assms(1) False obtain c2 where
      c2: "memcpy_dst c1 tmp = Some (Inr c2)"
      and c': "c' = c2\<lparr>dst_ptr := dst_ptr c2 + length tmp,
                       dstsize := dstsize c2 + word_of_nat (length tmp),
                       dstrem := dstrem c2 - word_of_nat (length tmp)\<rparr>"
      by (auto simp: flush_tmp_def Let_def comp_simps c1_def)
    from c2 have c2': "c2 = c1\<lparr>dst := store_bytes (dst c1) (dst_ptr c1) tmp\<rparr>"
      by (auto simp: memcpy_dst_def ret_def abort_def split: if_splits)
    have sz: "unat (dstsize c1 + word_of_nat (length tmp)) = unat (dstsize c1) + length tmp"
      using c1 assms(2,5) by (intro unat_add_nat32) simp
    show ?thesis
      using c1 assms(2,3) sz by (simp add: c' c2' store_bytes_below)
  qed
qed

lemma memcpy_dst_not_None: "memcpy_dst c bs \<noteq> None"
  by (simp add: memcpy_dst_def ret_def abort_def)

lemma flush_tmp_not_None: "flush_tmp c tmp \<noteq> None"
  unfolding flush_tmp_def Let_def by (intro not_None_intros memcpy_dst_not_None)

lemma alloc_channel_facts:
  "alloc_channel st ch = (abytes, st') \<Longrightarrow>
   mctx st' = mctx st \<and> cur st' = cur st \<and> delta_time st' = delta_time st \<and>
   (length abytes = 0 \<or> length abytes = 4)"
  by (auto simp: alloc_channel_def Let_def split: if_splits)

text \<open>What an iteration that completes is made of.\<close>

lemma loop_body_Inr:
  assumes "loop_body indet data hdr endp st = Some (Inr st')"
  shows "\<exists>count dbytes abytes st2 status bit1 bit2 bitc st3 c.
    cur st < length data \<and>
    WriteVarLen (delta_time st) = Some (Inr (count, dbytes)) \<and>
    alloc_channel (st\<lparr>cur := cur st + 1\<rparr>) (data ! cur st AND 15) = (abytes, st2) \<and>
    translate data hdr endp (indet (cur st)) (data ! cur st) (data ! cur st AND 15) st2 =
       Some (Inr ((status, bit1, bit2, bitc), st3)) \<and>
    flush_tmp (mctx st3) (dbytes @ abytes @ event_bytes status bit1 bit2 bitc) = Some (Inr c) \<and>
    next_delta data (data ! cur st) (st3\<lparr>mctx := c\<rparr>) = Some (Inr st')"
  using assms
  by (auto simp: loop_body_def bindC_def Let_def next_byte_def rd_def ret_def abort_def
        split: option.splits sum.splits prod.splits if_splits)

lemma next_delta_Inr:
  "next_delta data event st = Some (Inr st') \<Longrightarrow>
   mctx st' = mctx st \<and> cur st \<le> cur st' \<and> channelMap st' = channelMap st \<and>
   currentChannel st' = currentChannel st"
  by (auto simp: next_delta_def comp_simps split: if_splits dest: read_delta_Inr)

lemma next_delta_not_None: "next_delta data event st \<noteq> None"
  unfolding next_delta_def by (intro not_None_intros read_delta_not_None)

lemma loop_body_not_None: "loop_body indet data hdr endp st \<noteq> None"
  unfolding loop_body_def Let_def
  by (intro not_None_intros WriteVarLen_not_None translate_not_None flush_tmp_not_None
        next_delta_not_None)

lemma loop_body_cur:
  assumes "loop_body indet data hdr endp st = Some (Inr st')"
  shows "cur st < cur st'"
proof -
  from loop_body_Inr [OF assms] obtain abytes st2 status bit1 bit2 bitc st3 c where
    a: "alloc_channel (st\<lparr>cur := cur st + 1\<rparr>) (data ! cur st AND 15) = (abytes, st2)"
    and t: "translate data hdr endp (indet (cur st)) (data ! cur st) (data ! cur st AND 15) st2 =
       Some (Inr ((status, bit1, bit2, bitc), st3))"
    and e: "next_delta data (data ! cur st) (st3\<lparr>mctx := c\<rparr>) = Some (Inr st')"
    by blast
  have "cur st2 = cur st + 1" using alloc_channel_facts [OF a] by simp
  moreover have "cur st2 \<le> cur st3" using translate_Inr [OF t] by simp
  moreover have "cur st3 \<le> cur st'" using next_delta_Inr [OF e] by simp
  ultimately show ?thesis by simp
qed

lemma main_loop_invariant:
  assumes run: "main_loop indet data hdr endp st = Some (Inr st')"
    and init: "I st"
    and step: "\<And>s s'. I s \<Longrightarrow> cur s < endp \<Longrightarrow>
                 loop_body indet data hdr endp s = Some (Inr s') \<Longrightarrow> I s'"
  shows "I st' \<and> \<not> cur st' < endp"
proof -
  define P where "P = (\<lambda>(i :: nat \<Rightarrow> byte \<times> byte) d h e s (y :: fault + loop_state).
      i = indet \<and> d = data \<and> h = hdr \<and> e = endp \<and> I s \<longrightarrow>
      (\<forall>s'. y = Inr s' \<longrightarrow> I s' \<and> \<not> cur s' < endp))"
  have "P indet data hdr endp st (Inr st')"
  proof (rule main_loop.raw_induct [where P = P, OF _ run])
    fix f i d h e s y
    assume IH: "\<And>i d h e s y. f i d h e s = Some y \<Longrightarrow> P i d h e s y"
      and eq: "(if cur s < e
                then case loop_body i d h e s of None \<Rightarrow> None
                     | Some (Inl x) \<Rightarrow> Some (Inl x)
                     | Some (Inr s') \<Rightarrow> f i d h e s'
                else Some (Inr s)) = Some y"
    show "P i d h e s y"
      unfolding P_def
    proof (intro impI allI, elim conjE)
      fix s'
      assume par: "i = indet" "d = data" "h = hdr" "e = endp" and Is: "I s" and y: "y = Inr s'"
      show "I s' \<and> \<not> cur s' < endp"
      proof (cases "cur s < e")
        case False
        with eq y par Is show ?thesis by simp
      next
        case True
        with eq y obtain s1 where b: "loop_body i d h e s = Some (Inr s1)" and r: "f i d h e s1 = Some y"
          by (auto split: option.splits sum.splits)
        from Is True b par have "I s1" by (auto intro: step)
        with IH [OF r] par y show ?thesis by (simp add: P_def)
      qed
    qed
  qed
  with init show ?thesis by (simp add: P_def)
qed

lemma main_loop_returns: "\<exists>r. main_loop indet data hdr endp st = Some r"
proof (induction "endp - cur st" arbitrary: st rule: less_induct)
  case less
  show ?case
  proof (cases "cur st < endp")
    case False
    then show ?thesis by (subst main_loop.simps) simp
  next
    case True
    obtain r where r: "loop_body indet data hdr endp st = Some r"
      using loop_body_not_None [of indet data hdr endp st] by auto
    show ?thesis
    proof (cases r)
      case (Inl e)
      with True r show ?thesis by (subst main_loop.simps) simp
    next
      case (Inr s')
      with r have "cur st < cur s'" by (auto dest: loop_body_cur)
      with True have "endp - cur s' < endp - cur st" by simp
      then obtain r' where "main_loop indet data hdr endp s' = Some r'"
        using less by blast
      with True r Inr show ?thesis by (subst main_loop.simps) simp
    qed
  qed
qed

lemma event_bytes_length: "length (event_bytes status bit1 bit2 bitc) \<le> 3"
  by (simp add: event_bytes_def)

lemma loop_body_sink:
  assumes b: "loop_body indet data hdr endp st = Some (Inr st')"
    and lt: "cur st < endp"
    and e: "endp \<le> 131070"
    and inv: "sink_inv endp pre st"
  shows "sink_inv endp pre st'"
proof -
  from loop_body_Inr [OF b] obtain count dbytes abytes st2 status bit1 bit2 bitc st3 c where
    w: "WriteVarLen (delta_time st) = Some (Inr (count, dbytes))"
    and a: "alloc_channel (st\<lparr>cur := cur st + 1\<rparr>) (data ! cur st AND 15) = (abytes, st2)"
    and t: "translate data hdr endp (indet (cur st)) (data ! cur st) (data ! cur st AND 15) st2 =
       Some (Inr ((status, bit1, bit2, bitc), st3))"
    and f: "flush_tmp (mctx st3) (dbytes @ abytes @ event_bytes status bit1 bit2 bitc) = Some (Inr c)"
    and d: "next_delta data (data ! cur st) (st3\<lparr>mctx := c\<rparr>) = Some (Inr st')"
    by blast
  have m3: "mctx st3 = mctx st"
    using alloc_channel_facts [OF a] translate_Inr [OF t] by simp
  have len: "length (dbytes @ abytes @ event_bytes status bit1 bit2 bitc) \<le> 16"
    using WriteVarLen_Inr [OF w] alloc_channel_facts [OF a]
      event_bytes_length [of status bit1 bit2 bitc] by auto
  have k: "min (cur st) endp = cur st" using lt by simp
  have bound: "unat (dstsize (mctx st3)) + 8208 < 2 ^ 32"
    using inv e lt by (simp add: sink_inv_def m3 k)
  from inv have i1: "33 \<le> dst_ptr (mctx st3)" and i2: "dst_ptr (mctx st3) + 8159 \<le> unat (dstsize (mctx st3))"
    by (simp_all add: sink_inv_def m3)
  note fl = flush_tmp_Inr [OF f len i1 i2 bound]
  have mc: "mctx st' = c" using next_delta_Inr [OF d] by simp
  have "cur st < cur st'" using b by (rule loop_body_cur)
  with lt have k': "cur st + 1 \<le> min (cur st') endp" by simp
  have "unat (dstsize c) \<le> 8192 + 8208 * cur st + 8208"
    using fl inv by (simp add: sink_inv_def m3 k)
  also have "\<dots> = 8192 + 8208 * (cur st + 1)" by simp
  also have "\<dots> \<le> 8192 + 8208 * min (cur st') endp"
    using k' by (intro add_left_mono mult_le_mono2)
  finally have up: "unat (dstsize c) \<le> 8192 + 8208 * min (cur st') endp" .
  show ?thesis
    using fl inv up by (simp add: sink_inv_def mc m3)
qed

section \<open>The track length\<close>

lemmas sink_defs = write1_def write2_def write4_def poke_def bindC_def ret_def abort_def
  skipdst_def seekdst_def getdstpos_def resize_dst_def DST_CHUNK_def TEMPO_def

lemma write_preamble_Inr:
  assumes "dst_ptr c0 = 0" "dstsize c0 = 8192" "dstrem c0 = 8192" "dst_cap c0 = 8192"
  shows "\<exists>c. write_preamble c0 = Some (Inr (c, 18, 14)) \<and>
           dst_ptr c = 33 \<and> dstsize c = 8192 \<and> dstrem c = 8159 \<and> dst_cap c = 8192 \<and>
           src c = src c0 \<and>
           dst c 14 = Some 0x4D \<and> dst c 15 = Some 0x54 \<and> dst c 16 = Some 0x72 \<and>
           dst c 17 = Some 0x6B"
  using assms by (simp add: write_preamble_def sink_defs grow_dst.simps Let_def)

lemma grow_dst_done: "\<not> unat (dstsize c) < t \<Longrightarrow> grow_dst c t = Some c"
  by (subst grow_dst.simps) simp

text \<open>The grow loop ends only for a target that a 32-bit size can reach.\<close>

lemma grow_dst_Some_bound:
  assumes "grow_dst c t = Some c'"
  shows "t < 2 ^ 32"
proof (rule grow_dst.raw_induct [where P = "\<lambda>c t c'. t < 2 ^ 32", OF _ assms])
  fix f and c :: mus_ctx and t :: nat and y :: mus_ctx
  assume IH: "\<And>c t y. f c t = Some y \<Longrightarrow> t < 2 ^ 32"
    and eq: "(if unat (dstsize c) < t then f (resize_dst c) t else Some c) = Some y"
  show "t < 2 ^ 32"
  proof (cases "unat (dstsize c) < t")
    case True
    with eq have "f (resize_dst c) t = Some y" by simp
    then show ?thesis by (rule IH)
  next
    case False
    have "unat (dstsize c) < 2 ^ 32"
      by (rule order_less_le_trans [OF unsigned_less]) simp
    with False show ?thesis by simp
  qed
qed

lemma skipdst_below_start:
  assumes "int (dst_ptr c) + pos < 0" and "- (2 ^ 31) \<le> pos"
  shows "skipdst c pos = None"
proof -
  define x where "x = int (dst_ptr c) + pos"
  have x: "- (2 ^ 31) \<le> x" "x < 0" using assms by (simp_all add: x_def)
  have "x mod 2 ^ 64 = (x + 2 ^ 64) mod 2 ^ 64" by simp
  also have "\<dots> = x + 2 ^ 64" using x by (intro mod_pos_pos_trivial) simp_all
  finally have "x mod 2 ^ 64 = x + 2 ^ 64" .
  with x have big: "\<not> nat (x mod 2 ^ 64) < 2 ^ 32" by simp
  have "grow_dst (c\<lparr>dst_ptr := nat (x mod 2 ^ 64)\<rparr>) (nat (x mod 2 ^ 64)) = None"
  proof (cases "grow_dst (c\<lparr>dst_ptr := nat (x mod 2 ^ 64)\<rparr>) (nat (x mod 2 ^ 64))")
    case None
    then show ?thesis .
  next
    case (Some c')
    then have "nat (x mod 2 ^ 64) < 2 ^ 32" by (rule grow_dst_Some_bound)
    with big show ?thesis by simp
  qed
  then show ?thesis by (simp add: skipdst_def Let_def x_def)
qed

lemma ucast_and_255: "(ucast ((w :: 32 word) AND 0xff) :: byte) = ucast w"
proof -
  have m: "(0xff :: 32 word) = mask 8" by (simp add: mask_eq_exp_minus_1)
  show ?thesis unfolding m by (rule bit_word_eqI) (auto simp: bit_simps)
qed

lemma seekdst_Inr:
  "\<not> unat (dstsize c) < unat pos \<Longrightarrow>
   seekdst c pos = Some (Inr (c\<lparr>dst_ptr := unat pos, dstrem := dstsize c - pos\<rparr>))"
  by (simp add: seekdst_def grow_dst_done ret_def)

lemma write4_Inr:
  assumes "write4 c v = Some (Inr c')" and "\<not> dstrem c < 4"
  shows "c' = c\<lparr>dst := (dst c)(dst_ptr c := Some (ucast (drop_bit 24 v)),
                                dst_ptr c + 1 := Some (ucast (drop_bit 16 v)),
                                dst_ptr c + 2 := Some (ucast (drop_bit 8 v)),
                                dst_ptr c + 3 := Some (ucast v)),
                  dst_ptr := dst_ptr c + 4, dstrem := dstrem c - 4\<rparr>"
proof -
  have n: "dst_ptr c + 1 = Suc (dst_ptr c)" "dst_ptr c + 2 = Suc (Suc (dst_ptr c))"
    "dst_ptr c + 3 = Suc (Suc (Suc (dst_ptr c)))" "dst_ptr c + 4 = Suc (Suc (Suc (Suc (dst_ptr c))))"
    by simp_all
  from assms show ?thesis
    unfolding n
    by (auto simp: write4_def poke_def bindC_def ret_def abort_def ucast_and_255 split: if_splits)
qed

lemma finish_Inr:
  assumes f: "finish c 18 14 = Some (Inr c')"
    and p: "33 \<le> dst_ptr c"
    and s: "dst_ptr c + 8159 \<le> unat (dstsize c)"
  shows "dst_ptr c' = dst_ptr c \<and> dstsize c' = word_of_nat (dst_ptr c) \<and>
         dstrem c' = dstsize c - word_of_nat (dst_ptr c) \<and>
         map (dst c') [18..<22] = map Some (be32 (word_of_nat (dst_ptr c) - 22)) \<and>
         (\<forall>i<18. dst c' i = dst c i)"
proof -
  have "unat (dstsize c) < 2 ^ 32"
    by (rule order_less_le_trans [OF unsigned_less]) simp
  with s have p32: "dst_ptr c < 2 ^ 32" by simp
  then have up: "unat (word_of_nat (dst_ptr c) :: 32 word) = dst_ptr c" by (rule unat_of_nat32)
  define v where "v = (word_of_nat (dst_ptr c) :: 32 word) - 14 - sizeof_MidiTrackChunk"
  define c1 where "c1 = c\<lparr>dst_ptr := 18, dstrem := dstsize c - 18\<rparr>"
  have s1: "seekdst c 18 = Some (Inr c1)"
    using s p seekdst_Inr [of c 18] by (simp add: c1_def)
  have "(18 :: 32 word) \<le> dstsize c" using s p by (simp add: word_le_nat_alt)
  then have "unat (dstsize c - 18) = unat (dstsize c) - 18" by (simp add: unat_sub)
  with s p have rem: "\<not> dstrem c1 < 4" by (simp add: word_less_nat_alt c1_def)
  from f s1 obtain c2 where w: "write4 c1 v = Some (Inr c2)"
    and r: "bindC (seekdst c2 (word_of_nat (dst_ptr c)))
              (\<lambda>c. ret (c\<lparr>dstsize := word_of_nat (dst_ptr c)\<rparr>)) = Some (Inr c')"
    by (auto simp: finish_def Let_def getdstpos_def bindC_Inr_iff v_def)
  note c2 = write4_Inr [OF w rem]
  have "\<not> unat (dstsize c2) < unat (word_of_nat (dst_ptr c) :: 32 word)"
    using s by (simp add: c2 c1_def up)
  then have s2: "seekdst c2 (word_of_nat (dst_ptr c)) =
      Some (Inr (c2\<lparr>dst_ptr := dst_ptr c, dstrem := dstsize c2 - word_of_nat (dst_ptr c)\<rparr>))"
    using seekdst_Inr [of c2 "word_of_nat (dst_ptr c)"] by (simp add: up)
  from r have c': "c' = c2\<lparr>dst_ptr := dst_ptr c, dstrem := dstsize c2 - word_of_nat (dst_ptr c),
                          dstsize := word_of_nat (dst_ptr c)\<rparr>"
    by (simp add: s2 bindC_def ret_def)
  have v22: "v = word_of_nat (dst_ptr c) - 22" by (simp add: v_def sizeof_MidiTrackChunk_def)
  have l: "[18..<22] = [18, 19, 20, 21]" by (simp add: upt_rec)
  show ?thesis
    by (simp add: c' c2 c1_def l be32_def v22)
qed

text \<open>What a translation that returns a context is made of.\<close>

lemma mus2midi_Some:
  assumes "mus2midi indet data sz = Some (Inr (Some c'))"
  shows "\<exists>hdr c0 st.
           read_header data = Some (Inr hdr) \<and> channels hdr \<le> 15 \<and>
           dst_ptr c0 = 33 \<and> dstsize c0 = 8192 \<and>
           dst c0 14 = Some 0x4D \<and> dst c0 15 = Some 0x54 \<and> dst c0 16 = Some 0x72 \<and>
           dst c0 17 = Some 0x6B \<and>
           main_loop indet data hdr (score_end hdr) (init_loop c0 hdr) = Some (Inr st) \<and>
           finish (mctx st) 18 14 = Some (Inr c')"
proof -
  define cin where "cin = (init_ctx data sz)\<lparr>src_ptr := src_ptr (init_ctx data sz) + sizeof_MUSheader\<rparr>"
  have "dst_ptr cin = 0" "dstsize cin = 8192" "dstrem cin = 8192" "dst_cap cin = 8192"
    by (simp_all add: cin_def init_ctx_def DST_CHUNK_def)
  then obtain c0 where pre: "write_preamble cin = Some (Inr (c0, 18, 14))"
    and c0: "dst_ptr c0 = 33" "dstsize c0 = 8192"
      "dst c0 14 = Some 0x4D" "dst c0 15 = Some 0x54" "dst c0 16 = Some 0x72" "dst c0 17 = Some 0x6B"
    using write_preamble_Inr [of cin] by blast
  from assms obtain hdr where h: "read_header data = Some (Inr hdr)"
    and ch: "channels hdr \<le> 15" and cv: "convert indet data hdr cin = Some (Inr c')"
    unfolding mus2midi_def Let_def cin_def [symmetric]
    by (auto simp: comp_simps MIDI_MAXCHANNELS_def split: if_splits)
  from cv pre obtain st where
    "main_loop indet data hdr (score_end hdr) (init_loop c0 hdr) = Some (Inr st)"
    "finish (mctx st) 18 14 = Some (Inr c')"
    by (auto simp: convert_def bindC_Inr_iff)
  with h ch c0 show ?thesis by blast
qed

lemma score_end_le: "score_end hdr \<le> 131070"
proof -
  have "unat (scoreStart hdr) < 2 ^ 16" "unat (scoreLen hdr) < 2 ^ 16"
    by (rule order_less_le_trans [OF unsigned_less], simp)+
  then show ?thesis by (simp add: score_end_def)
qed

text \<open>
  Claim C7. When the translation returns a context, the track tag is at offsets 14 to
  17 and the four bytes after it hold, most significant first, the final length less
  the offset \<open>14 + 8\<close> at which the track data start. The final length is \<open>dstsize\<close>
  after its correction, which is the offset of the write cursor.
\<close>

theorem track_length_patched:
  assumes "mus2midi indet data sz = Some (Inr (Some c))"
  shows "map (dst c) [14..<18] = map Some [0x4D, 0x54, 0x72, 0x6B] \<and>
         map (dst c) [18..<22] = map Some (be32 (dstsize c - (14 + 8))) \<and>
         dstsize c = word_of_nat (dst_ptr c) \<and> 14 + 8 \<le> dst_ptr c \<and> dst_ptr c < 2 ^ 32"
proof -
  from mus2midi_Some [OF assms] obtain hdr c0 st where
    c0: "dst_ptr c0 = 33" "dstsize c0 = 8192"
      "dst c0 14 = Some 0x4D" "dst c0 15 = Some 0x54" "dst c0 16 = Some 0x72" "dst c0 17 = Some 0x6B"
    and run: "main_loop indet data hdr (score_end hdr) (init_loop c0 hdr) = Some (Inr st)"
    and fin: "finish (mctx st) 18 14 = Some (Inr c)"
    by blast
  have init: "sink_inv (score_end hdr) (dst c0) (init_loop c0 hdr)"
    using c0 by (simp add: sink_inv_def init_loop_def)
  have "sink_inv (score_end hdr) (dst c0) st \<and> \<not> cur st < score_end hdr"
    using run init
  proof (rule main_loop_invariant)
    fix s s'
    assume i: "sink_inv (score_end hdr) (dst c0) s" and lt: "cur s < score_end hdr"
      and b: "loop_body indet data hdr (score_end hdr) s = Some (Inr s')"
    show "sink_inv (score_end hdr) (dst c0) s'"
      by (rule loop_body_sink [OF b lt score_end_le i])
  qed
  then have inv: "33 \<le> dst_ptr (mctx st)" "dst_ptr (mctx st) + 8159 \<le> unat (dstsize (mctx st))"
    "\<forall>i<33. dst (mctx st) i = dst c0 i"
    by (simp_all add: sink_inv_def)
  note fl = finish_Inr [OF fin inv(1,2)]
  have "unat (dstsize (mctx st)) < 2 ^ 32"
    by (rule order_less_le_trans [OF unsigned_less]) simp
  with inv(2) have p32: "dst_ptr (mctx st) < 2 ^ 32" by simp
  have tag: "dst c i = dst c0 i" if "i < 18" for i
    using that fl inv(3) by simp
  have l: "[14..<18] = [14, 15, 16, 17]" by (simp add: upt_rec)
  show ?thesis
    using fl inv(1) p32 c0 by (simp add: l tag)
qed

section \<open>Runs on the inputs\<close>

text \<open>
  What the \<^verbatim>\<open>switch\<close> returns for a ChannelMode event, for an event of type 5 or 7, and
  for a ControllerChange whose controller number is 15 or more.
\<close>

lemma translate_channel_mode:
  assumes "drop_bit 4 (ev AND 122) = MUSEVENT_CHANNELMODE"
    and "cur st + 1 < length data" and "unat (data ! cur st) < 15"
  shows "translate data hdr endp u ev ch st =
     Some (Inr ((word_of_int (channelMap st ! unat ch) OR 0xB0, midimap ! unat (data ! cur st),
                 (if data ! (cur st + 1) = 12 then word_of_nat (unat (channels hdr) + 1) else 0), 2),
                st\<lparr>cur := cur st + 2\<rparr>))"
  using assms
  by (simp add: translate_def Let_def MUSEVENT_KEYOFF_def MUSEVENT_KEYON_def
        MUSEVENT_PITCHWHEEL_def MUSEVENT_CHANNELMODE_def bindC_def rd_def next_byte_def ret_def
        check_controller_def midimap_at_def midimap_def)

lemma translate_unknown:
  assumes "drop_bit 4 (ev AND 122) = 5 \<or> drop_bit 4 (ev AND 122) = 7"
  shows "translate data hdr endp u ev ch st =
     Some (Inr ((word_of_int (channelMap st ! unat ch), fst u, snd u, 2), st))"
  using assms
proof
  assume "drop_bit 4 (ev AND 122) = 5"
  then show ?thesis
    by (simp add: translate_def Let_def MUSEVENT_KEYOFF_def MUSEVENT_KEYON_def
        MUSEVENT_PITCHWHEEL_def MUSEVENT_CHANNELMODE_def MUSEVENT_CONTROLLERCHANGE_def ret_def)
next
  assume "drop_bit 4 (ev AND 122) = 7"
  then show ?thesis
    by (simp add: translate_def Let_def MUSEVENT_KEYOFF_def MUSEVENT_KEYON_def
        MUSEVENT_PITCHWHEEL_def MUSEVENT_CHANNELMODE_def MUSEVENT_CONTROLLERCHANGE_def
        MUSEVENT_END_def ret_def)
qed

lemma translate_controller_overread:
  assumes "drop_bit 4 (ev AND 122) = MUSEVENT_CONTROLLERCHANGE"
    and "cur st < length data" and "15 \<le> unat (data ! cur st)"
  shows "translate data hdr endp u ev ch st = Some (Inl TableOverread)"
proof -
  from assms(3) have "data ! cur st \<noteq> 0" by auto
  with assms show ?thesis
    by (simp add: translate_def Let_def MUSEVENT_KEYOFF_def MUSEVENT_KEYON_def
        MUSEVENT_PITCHWHEEL_def MUSEVENT_CHANNELMODE_def MUSEVENT_CONTROLLERCHANGE_def
        bindC_def rd_def next_byte_def ret_def abort_def check_controller_def midimap_at_def
        midimap_def)
qed

lemmas run_defs = mus2midi_def read_header_def sizeof_MUSheader_def le16_def MIDI_MAXCHANNELS_def
  convert_def write_preamble_def init_ctx_def grow_dst.simps init_loop_def score_end_def
  main_loop.simps loop_body_def next_byte_def rd_def WriteVarLen_def wvl_pack.simps wvl_emit.simps
  LONG_MAX_def INT_MAX_def alloc_channel_def translate_def event_bytes_def next_delta_def
  MUSEVENT_KEYOFF_def MUSEVENT_KEYON_def MUSEVENT_PITCHWHEEL_def MUSEVENT_CHANNELMODE_def
  MUSEVENT_CONTROLLERCHANGE_def MUSEVENT_END_def vol_get_def vol_set_def midimap_at_def midimap_def
  check_controller_def flush_tmp_def memcpy_dst_def read_delta.simps finish_def sizeof_MidiTrackChunk_def
  mus_getmidisize_def emitted_def mus_file_def sink_defs Let_def upt_rec

lemma scenario_run:
  "\<exists>c. mus2midi indet scenario sz = Some (Inr (Some c)) \<and>
       emitted c = map Some
         [0x4D, 0x54, 0x68, 0x64, 0, 0, 0, 6, 0, 0, 0, 1, 0, 0x59,
          0x4D, 0x54, 0x72, 0x6B, 0, 0, 0, 23,
          0x00, 0xFF, 0x51, 0x03, 0x09, 0xA3, 0x1A,
          0x00, 0xB9, 0x07, 0x7F,
          0x00, 0xB0, 0x07, 0x7F,
          0x00, 0x90, 0x3C, 0x64,
          0x00, 0xFF, 0x2F, 0x00] \<and>
       dst_ptr c = 45 \<and> dstsize c = 45 \<and> dstrem c = 8159"
  by (simp add: scenario_def run_defs)

lemma mode_run:
  "\<exists>c. mus2midi indet mode_input sz = Some (Inr (Some c)) \<and>
       drop 33 (emitted c) = map Some [0x00, 0xB0, 0x07, 0x7F, 0x00, 0xB0, 0x7E, 0x00]"
  by (simp add: mode_input_def run_defs)

lemma unknown_run:
  "\<exists>c. mus2midi indet unknown_input sz = Some (Inr (Some c)) \<and>
       drop 33 (emitted c) = map Some [0x00, 0x09, fst (indet 16), snd (indet 16),
          0x00, 0xB0, 0x07, 0x7F, 0x00, 0xFF, 0x2F, 0x00]"
  by (simp add: unknown_input_def run_defs)

lemma controller_run:
  "mus2midi indet controller_input sz = Some (Inl TableOverread)"
  by (simp add: controller_input_def run_defs)

lemma rejected_run:
  "mus2midi indet rejected_input sz = Some (Inr None)"
  by (simp add: rejected_input_def run_defs)

section \<open>The allocation of channels\<close>

text \<open>The state in which the main loop ends is one of the states after \<open>n\<close> iterations.\<close>

lemma main_loop_iter:
  assumes run: "main_loop indet data hdr endp st = Some (Inr st')"
  shows "\<exists>n. loop_iter indet data hdr endp n st = Some (Inr st')"
proof -
  define P where "P = (\<lambda>(i :: nat \<Rightarrow> byte \<times> byte) d h e s (y :: fault + loop_state).
      \<forall>s'. y = Inr s' \<longrightarrow> (\<exists>n. loop_iter i d h e n s = Some (Inr s')))"
  have "P indet data hdr endp st (Inr st')"
  proof (rule main_loop.raw_induct [where P = P, OF _ run])
    fix f i d h e s y
    assume IH: "\<And>i d h e s y. f i d h e s = Some y \<Longrightarrow> P i d h e s y"
      and eq: "(if cur s < e
                then case loop_body i d h e s of None \<Rightarrow> None
                     | Some (Inl x) \<Rightarrow> Some (Inl x)
                     | Some (Inr s') \<Rightarrow> f i d h e s'
                else Some (Inr s)) = Some y"
    show "P i d h e s y"
      unfolding P_def
    proof (intro allI impI)
      fix s'
      assume y: "y = Inr s'"
      show "\<exists>n. loop_iter i d h e n s = Some (Inr s')"
      proof (cases "cur s < e")
        case False
        with eq y have "loop_iter i d h e 0 s = Some (Inr s')" by (simp add: ret_def)
        then show ?thesis ..
      next
        case True
        with eq y obtain s1 where b: "loop_body i d h e s = Some (Inr s1)"
          and r: "f i d h e s1 = Some y"
          by (auto split: option.splits sum.splits)
        from IH [OF r] y obtain n where "loop_iter i d h e n s1 = Some (Inr s')"
          by (auto simp: P_def)
        with True b have "loop_iter i d h e (Suc n) s = Some (Inr s')"
          by (simp add: bindC_def)
        then show ?thesis ..
      qed
    qed
  qed
  then show ?thesis by (simp add: P_def)
qed

lemma low_nibble_lt: "unat ((b :: byte) AND 15) < 16"
proof -
  have "unat (b AND 15) \<le> unat (15 :: byte)"
    by (rule word_and_le1 [THEN word_le_nat_alt [THEN iffD1]])
  then show ?thesis by simp
qed

lemma alloc_channel_inv:
  assumes a: "alloc_channel st ch = (abytes, st2)" and inv: "chan_inv st" and ch: "unat ch < 16"
  shows "chan_inv st2 \<and> chan_step (unat ch) st st2"
proof (cases "channelMap st ! unat ch < 0")
  case False
  with a have "st2 = st" by (simp add: alloc_channel_def)
  with inv False show ?thesis by (simp add: chan_step_def)
next
  case True
  with inv have "unat ch \<noteq> 15" by (auto simp: chan_inv_def)
  with ch have c15: "unat ch < 15" by simp
  define cc where "cc = currentChannel st"
  define cc2 where "cc2 = (if cc + 1 = 9 then cc + 2 else cc + 1)"
  from a True have st2: "st2 = st\<lparr>channelMap := (channelMap st)[unat ch := cc], currentChannel := cc2\<rparr>"
    by (auto simp: alloc_channel_def Let_def cc_def cc2_def)
  have cc: "0 \<le> cc" "cc \<noteq> 9" using inv by (simp_all add: chan_inv_def cc_def)
  then have cc2: "cc < cc2" "cc2 \<noteq> 9" "0 \<le> cc2" by (auto simp: cc2_def)
  have "chan_inv st2"
    unfolding chan_inv_def
  proof (intro conjI allI impI)
    show "length (channelMap st2) = 16" using inv by (simp add: st2 chan_inv_def)
    show "channelMap st2 ! 15 = 9" using inv c15 by (simp add: st2 chan_inv_def)
    show "0 \<le> currentChannel st2" using cc2 by (simp add: st2)
    show "currentChannel st2 \<noteq> 9" using cc2 by (simp add: st2)
  next
    fix k :: nat
    assume k: "k < 15"
    show "channelMap st2 ! k = - 1 \<or>
          (0 \<le> channelMap st2 ! k \<and> channelMap st2 ! k < currentChannel st2 \<and> channelMap st2 ! k \<noteq> 9)"
    proof (cases "k = unat ch")
      case True
      then show ?thesis using inv cc cc2 k by (simp add: st2 chan_inv_def)
    next
      case False
      from inv k have "channelMap st ! k = - 1 \<or>
          (0 \<le> channelMap st ! k \<and> channelMap st ! k < cc \<and> channelMap st ! k \<noteq> 9)"
        by (simp add: chan_inv_def cc_def)
      then show ?thesis using False cc2 by (auto simp: st2)
    qed
  qed
  moreover have "chan_step (unat ch) st st2"
    using True by (simp add: chan_step_def st2 cc_def cc2_def)
  ultimately show ?thesis by simp
qed

lemma chan_inv_cur: "chan_inv (st\<lparr>cur := n\<rparr>) = chan_inv st"
  by (simp add: chan_inv_def)

lemma loop_body_chan:
  assumes b: "loop_body indet data hdr endp st = Some (Inr st')" and inv: "chan_inv st"
  shows "chan_inv st' \<and> chan_step (unat (data ! cur st AND 15)) st st'"
proof -
  from loop_body_Inr [OF b] obtain abytes st2 status bit1 bit2 bitc st3 c where
    a: "alloc_channel (st\<lparr>cur := cur st + 1\<rparr>) (data ! cur st AND 15) = (abytes, st2)"
    and t: "translate data hdr endp (indet (cur st)) (data ! cur st) (data ! cur st AND 15) st2 =
       Some (Inr ((status, bit1, bit2, bitc), st3))"
    and d: "next_delta data (data ! cur st) (st3\<lparr>mctx := c\<rparr>) = Some (Inr st')"
    by blast
  have "chan_inv (st\<lparr>cur := cur st + 1\<rparr>)" using inv by (simp add: chan_inv_cur)
  from alloc_channel_inv [OF a this low_nibble_lt]
  have i2: "chan_inv st2" and s2: "chan_step (unat (data ! cur st AND 15)) st st2"
    by (simp_all add: chan_step_def)
  have eq: "channelMap st' = channelMap st2" "currentChannel st' = currentChannel st2"
    using translate_Inr [OF t] next_delta_Inr [OF d] by simp_all
  from i2 s2 show ?thesis by (simp add: chan_inv_def chan_step_def eq)
qed

lemma loop_iter_chan:
  "loop_iter indet data hdr endp n st0 = Some (Inr st) \<Longrightarrow> chan_inv st0 \<Longrightarrow> chan_inv st"
proof (induction n arbitrary: st0)
  case 0
  then show ?case by (simp add: ret_def)
next
  case (Suc n)
  show ?case
  proof (cases "cur st0 < endp")
    case False
    with Suc.prems show ?thesis by (simp add: ret_def)
  next
    case True
    with Suc.prems(1) obtain s1 where b: "loop_body indet data hdr endp st0 = Some (Inr s1)"
      and r: "loop_iter indet data hdr endp n s1 = Some (Inr st)"
      by (auto simp: bindC_Inr_iff)
    from loop_body_chan [OF b Suc.prems(2)] have "chan_inv s1" by simp
    with r show ?thesis by (rule Suc.IH)
  qed
qed

lemma init_loop_chan: "chan_inv (init_loop c hdr)"
  by (auto simp: chan_inv_def init_loop_def MIDI_MAXCHANNELS_def nth_list_update)

text \<open>
  Claim C9. After any number of iterations from the initial state: MUS channel 15 maps
  to MIDI channel 9; no MUS channel from 0 to 14 maps to 9; every such channel is
  unassigned or maps to a value below the counter; the counter is never 9 and starts at
  0 with every channel from 0 to 14 unassigned; and the next iteration either leaves
  the map and the counter as they are, or gives the unassigned channel of its event the
  value of the counter and moves the counter up by one, or by two past 9.
\<close>

theorem channel_allocation:
  assumes "loop_iter indet data hdr endp n (init_loop c hdr) = Some (Inr st)"
  shows "channelMap st ! 15 = 9 \<and>
         (\<forall>ch<15. channelMap st ! ch \<noteq> 9) \<and>
         (\<forall>ch<15. channelMap st ! ch = - 1 \<or>
            (0 \<le> channelMap st ! ch \<and> channelMap st ! ch < currentChannel st)) \<and>
         currentChannel st \<noteq> 9 \<and>
         (n = 0 \<longrightarrow> currentChannel st = 0 \<and> (\<forall>ch<15. channelMap st ! ch = - 1)) \<and>
         (\<forall>st'. loop_body indet data hdr endp st = Some (Inr st') \<longrightarrow>
            (if channelMap st ! unat (data ! cur st AND 15) < 0
             then channelMap st' = (channelMap st)[unat (data ! cur st AND 15) := currentChannel st] \<and>
                  currentChannel st' =
                    (if currentChannel st + 1 = 9 then currentChannel st + 2
                     else currentChannel st + 1)
             else channelMap st' = channelMap st \<and> currentChannel st' = currentChannel st))"
proof -
  have inv: "chan_inv st" using assms init_loop_chan by (rule loop_iter_chan)
  have start: "currentChannel st = 0 \<and> (\<forall>ch<15. channelMap st ! ch = - 1)" if "n = 0"
    using that assms by (auto simp: ret_def init_loop_def MIDI_MAXCHANNELS_def nth_list_update)
  have step: "chan_step (unat (data ! cur st AND 15)) st st'"
    if "loop_body indet data hdr endp st = Some (Inr st')" for st'
    using loop_body_chan [OF that inv] by simp
  from inv have "channelMap st ! 15 = 9" "currentChannel st \<noteq> 9"
    and m: "\<forall>ch<15. channelMap st ! ch = - 1 \<or>
        (0 \<le> channelMap st ! ch \<and> channelMap st ! ch < currentChannel st \<and> channelMap st ! ch \<noteq> 9)"
    by (simp_all add: chan_inv_def)
  moreover from m have "\<forall>ch<15. channelMap st ! ch \<noteq> 9" by auto
  moreover from m have "\<forall>ch<15. channelMap st ! ch = - 1 \<or>
            (0 \<le> channelMap st ! ch \<and> channelMap st ! ch < currentChannel st)" by auto
  ultimately show ?thesis using start step by (simp add: chan_step_def)
qed

section \<open>The inputs, the header check and termination\<close>

text \<open>
  Claim C1. On the file \<open>scenario\<close> (one channel declared; a KeyOn on MUS channel 0 with
  note 60 and volume 100, then the end of the score with no delta bytes) \<^verbatim>\<open>mus2midi\<close>
  returns a context. The bytes emitted are the MIDI header, the track tag, the track
  length, the tempo, and then: delta 0, controller 7 at 127 on MIDI channel 9; delta 0,
  controller 7 at 127 on MIDI channel 0; delta 0, \<open>0x90 0x3C 0x64\<close>; delta 0,
  \<open>0xFF 0x2F 0x00\<close>. The track length field holds the number of bytes that follow it.
\<close>

theorem scenario_translation:
  "\<exists>c. mus2midi indet scenario sz = Some (Inr (Some c)) \<and>
       emitted c = map Some
         ([0x4D, 0x54, 0x68, 0x64, 0, 0, 0, 6, 0, 0, 0, 1, 0, 0x59] @
          [0x4D, 0x54, 0x72, 0x6B] @ [0, 0, 0, 23] @
          [0x00, 0xFF, 0x51, 0x03, 0x09, 0xA3, 0x1A] @
          [0x00, 0xB9, 0x07, 127] @
          [0x00, 0xB0, 0x07, 127] @
          [0x00, 0x90, 0x3C, 0x64] @
          [0x00, 0xFF, 0x2F, 0x00]) \<and>
       take 4 (drop 18 (emitted c)) =
         map Some (be32 (word_of_nat (length (drop 22 (emitted c)))))"
proof -
  from scenario_run [of indet sz] obtain c where
    "mus2midi indet scenario sz = Some (Inr (Some c))"
    "emitted c = map Some
         [0x4D, 0x54, 0x68, 0x64, 0, 0, 0, 6, 0, 0, 0, 1, 0, 0x59,
          0x4D, 0x54, 0x72, 0x6B, 0, 0, 0, 23,
          0x00, 0xFF, 0x51, 0x03, 0x09, 0xA3, 0x1A,
          0x00, 0xB9, 0x07, 0x7F,
          0x00, 0xB0, 0x07, 0x7F,
          0x00, 0x90, 0x3C, 0x64,
          0x00, 0xFF, 0x2F, 0x00]"
    by blast
  then show ?thesis by (intro exI [of _ c]) (simp add: be32_def)
qed

text \<open>
  Claim C2. On the file \<open>scenario\<close> the translation completes with the write cursor at
  offset 45, and \<^verbatim>\<open>mus_getmidisize\<close> returns 4294959182: \<open>dstsize\<close> is corrected to 45
  but \<open>dstrem\<close> still holds 8159, and the difference wraps around.
\<close>

theorem reported_size_scenario:
  "\<exists>c. mus2midi indet scenario sz = Some (Inr (Some c)) \<and>
       dst_ptr c = 45 \<and> length (emitted c) = 45 \<and> mus_getmidisize c = 4294959182"
proof -
  from scenario_run [of indet sz] obtain c where
    "mus2midi indet scenario sz = Some (Inr (Some c))"
    "dst_ptr c = 45" "dstsize c = 45" "dstrem c = 8159"
    by blast
  then show ?thesis by (intro exI [of _ c]) (simp add: mus_getmidisize_def emitted_def)
qed

lemma reported_size_never_cursor:
  assumes "mus2midi indet data sz = Some (Inr (Some c))"
  shows "mus_getmidisize c \<noteq> word_of_nat (dst_ptr c)"
proof -
  from mus2midi_Some [OF assms] obtain hdr c0 st where
    c0: "dst_ptr c0 = 33" "dstsize c0 = 8192"
    and run: "main_loop indet data hdr (score_end hdr) (init_loop c0 hdr) = Some (Inr st)"
    and fin: "finish (mctx st) 18 14 = Some (Inr c)"
    by blast
  have init: "sink_inv (score_end hdr) (dst c0) (init_loop c0 hdr)"
    using c0 by (simp add: sink_inv_def init_loop_def)
  have "sink_inv (score_end hdr) (dst c0) st \<and> \<not> cur st < score_end hdr"
    using run init
  proof (rule main_loop_invariant)
    fix s s'
    assume i: "sink_inv (score_end hdr) (dst c0) s" and lt: "cur s < score_end hdr"
      and b: "loop_body indet data hdr (score_end hdr) s = Some (Inr s')"
    show "sink_inv (score_end hdr) (dst c0) s'"
      by (rule loop_body_sink [OF b lt score_end_le i])
  qed
  then have inv: "33 \<le> dst_ptr (mctx st)" "dst_ptr (mctx st) + 8159 \<le> unat (dstsize (mctx st))"
    by (simp_all add: sink_inv_def)
  note fl = finish_Inr [OF fin inv]
  have "unat (dstsize (mctx st)) < 2 ^ 32"
    by (rule order_less_le_trans [OF unsigned_less]) simp
  with inv(2) have "dst_ptr (mctx st) < 2 ^ 32" by simp
  then have "unat (word_of_nat (dst_ptr (mctx st)) :: 32 word) = dst_ptr (mctx st)"
    by (rule unat_of_nat32)
  with inv(2) have ne: "dstsize (mctx st) \<noteq> word_of_nat (dst_ptr (mctx st))" by auto
  have "mus_getmidisize c = word_of_nat (dst_ptr (mctx st)) -
          (dstsize (mctx st) - word_of_nat (dst_ptr (mctx st)))"
    using fl by (simp add: mus_getmidisize_def)
  with ne fl show ?thesis by simp
qed

text \<open>
  Claim C3. On the file \<open>mode_input\<close> (one channel declared, so \<open>channels + 1 = 2\<close>) the
  ChannelMode event with the index 12 is emitted as \<open>0xB0 0x7E 0x00\<close>: the byte compared
  with 12 is the one after the index, here \<open>0x60\<close>, which is consumed with it.
\<close>

theorem channel_mode_run:
  "\<exists>c. mus2midi indet mode_input sz = Some (Inr (Some c)) \<and>
       drop 33 (emitted c) = map Some ([0x00, 0xB0, 0x07, 0x7F] @ [0x00, 0xB0, 0x7E, 0x00])"
  using mode_run [of indet sz] by simp

text \<open>
  Claim C4. On the file \<open>unknown_input\<close> the event of type 5 on channel 15 appends the
  delta time and three more bytes: the channel number 9 as status, and the two values
  that \<open>bit1\<close> and \<open>bit2\<close> hold without having been set.
\<close>

theorem unknown_event_run:
  "\<exists>c. mus2midi indet unknown_input sz = Some (Inr (Some c)) \<and>
       drop 33 (emitted c) =
         map Some ([0x00, 0x09, fst (indet 16), snd (indet 16)] @
                   [0x00, 0xB0, 0x07, 0x7F] @ [0x00, 0xFF, 0x2F, 0x00])"
  using unknown_run [of indet sz] by simp

text \<open>
  Claim C5. On the file \<open>controller_input\<close> the ControllerChange with the controller
  number 15 reads \<^verbatim>\<open>midimap[15]\<close>, past the 15 entries of the table.
\<close>

theorem controller_overread:
  "mus2midi indet controller_input sz = Some (Inl TableOverread)"
  by (rule controller_run)

text \<open>
  Claim C6. When the header declares more than 15 primary channels \<^verbatim>\<open>mus2midi\<close> returns
  \<^verbatim>\<open>NULL\<close> and no context; otherwise it never returns \<^verbatim>\<open>NULL\<close>, and its result is that of
  the translation that follows the check.
\<close>

theorem header_check:
  assumes "read_header data = Some (Inr hdr)"
  shows "(15 < channels hdr \<longrightarrow> mus2midi indet data sz = Some (Inr None)) \<and>
         (channels hdr \<le> 15 \<longrightarrow>
            mus2midi indet data sz \<noteq> Some (Inr None) \<and>
            mus2midi indet data sz =
              bindC (convert indet data hdr ((init_ctx data sz)\<lparr>src_ptr := sizeof_MUSheader\<rparr>))
                (\<lambda>c. ret (Some c)))"
proof -
  have m: "mus2midi indet data sz =
      (if 15 < channels hdr then ret None
       else bindC (convert indet data hdr ((init_ctx data sz)\<lparr>src_ptr := sizeof_MUSheader\<rparr>))
              (\<lambda>c. ret (Some c)))"
    using assms by (simp add: mus2midi_def Let_def bindC_def MIDI_MAXCHANNELS_def init_ctx_def)
  have "bindC x (\<lambda>c. ret (Some c)) \<noteq> Some (Inr None)" for x :: "(fault + mus_ctx) option"
    by (simp add: comp_simps)
  then show ?thesis by (auto simp: m ret_def)
qed

theorem header_check_witness:
  "mus2midi (\<lambda>_. (0, 0)) rejected_input 17 = Some (Inr None) \<and>
   mus2midi (\<lambda>_. (0, 0)) scenario 20 \<noteq> Some (Inr None)"
proof -
  have r: "read_header rejected_input =
      Some (Inr \<lparr>ID = [0x4D, 0x55, 0x53, 0x1A], scoreLen = 1, scoreStart = 16, channels = 16,
                 sec_channels = 0, instrCnt = 0, dummy = 0\<rparr>)"
    by (simp add: rejected_input_def mus_file_def read_header_def sizeof_MUSheader_def le16_def ret_def)
  have s: "read_header scenario = Some (Inr scenario_hdr)"
    by (simp add: scenario_def mus_file_def read_header_def sizeof_MUSheader_def le16_def ret_def
          scenario_hdr_def)
  have c: "channels scenario_hdr \<le> 15" by (simp add: scenario_hdr_def)
  have a: "mus2midi (\<lambda>_. (0, 0)) rejected_input 17 = Some (Inr None)"
    using header_check [OF r, of "\<lambda>_. (0, 0)" 17] by simp
  have b: "mus2midi (\<lambda>_. (0, 0)) scenario 20 \<noteq> Some (Inr None)"
    using header_check [OF s, of "\<lambda>_. (0, 0)" 20] c by blast
  from a b show ?thesis by simp
qed

theorem track_length_patched_witness:
  "\<exists>c. mus2midi (\<lambda>_. (0, 0)) scenario 20 = Some (Inr (Some c)) \<and>
       map (dst c) [18..<22] = map Some (be32 (dstsize c - (14 + 8))) \<and> dstsize c = 45"
proof -
  from scenario_run [of "\<lambda>_. (0, 0)" 20] obtain c where
    c: "mus2midi (\<lambda>_. (0, 0)) scenario 20 = Some (Inr (Some c))" and d: "dstsize c = 45"
    by blast
  from track_length_patched [OF c] d show ?thesis using c by blast
qed

lemma scenario_first_step:
  "\<exists>st. loop_body (\<lambda>_. (0, 0)) scenario scenario_hdr 20 scenario_start = Some (Inr st) \<and>
        cur st = 19 \<and> channelMap st ! 0 = 0 \<and> currentChannel st = 1"
  by (simp add: scenario_start_def scenario_hdr_def scenario_def run_defs)

lemma scenario_loop_run:
  "\<exists>st. main_loop (\<lambda>_. (0, 0)) scenario scenario_hdr 20 scenario_start = Some (Inr st) \<and>
        cur st = 20"
  by (simp add: scenario_start_def scenario_hdr_def scenario_def run_defs)

text \<open>
  Claim C10. A run of the main loop that meets no undefined behaviour (no read past the
  end of the input buffer or of \<^verbatim>\<open>midimap\<close>, no signed overflow of the delta time, no
  write past the output allocation) ends, with the source cursor not below the end offset; an iteration that completes moves the source cursor
  forward by at least one byte; and the loop leaves a state whose cursor is not below
  the end offset as it is.
\<close>

theorem main_loop_exits_without_fault:
  assumes "\<forall>f. main_loop indet data hdr endp st \<noteq> Some (Inl f)"
  shows "(\<exists>st'. main_loop indet data hdr endp st = Some (Inr st') \<and> \<not> cur st' < endp) \<and>
         (\<forall>st'. loop_body indet data hdr endp st = Some (Inr st') \<longrightarrow> cur st < cur st') \<and>
         (\<not> cur st < endp \<longrightarrow> main_loop indet data hdr endp st = Some (Inr st))"
proof (intro conjI allI impI)
  obtain r where r: "main_loop indet data hdr endp st = Some r"
    using main_loop_returns [of indet data hdr endp st] by blast
  with assms obtain st' where st': "main_loop indet data hdr endp st = Some (Inr st')"
    by (cases r) auto
  have "True \<and> \<not> cur st' < endp"
    by (rule main_loop_invariant [where I = "\<lambda>_. True", OF st']) simp_all
  with st' show "\<exists>st'. main_loop indet data hdr endp st = Some (Inr st') \<and> \<not> cur st' < endp"
    by blast
next
  fix st'
  assume "loop_body indet data hdr endp st = Some (Inr st')"
  then show "cur st < cur st'" by (rule loop_body_cur)
next
  assume "\<not> cur st < endp"
  then show "main_loop indet data hdr endp st = Some (Inr st)"
    by (subst main_loop.simps) simp
qed

theorem main_loop_exits_without_fault_witness:
  "(\<exists>st. main_loop (\<lambda>_. (0, 0)) scenario scenario_hdr 20 scenario_start = Some (Inr st) \<and>
         \<not> cur st < 20) \<and>
   (\<exists>st. loop_body (\<lambda>_. (0, 0)) scenario scenario_hdr 20 scenario_start = Some (Inr st) \<and>
         cur scenario_start < cur st)"
proof -
  from scenario_loop_run obtain s where
    "main_loop (\<lambda>_. (0, 0)) scenario scenario_hdr 20 scenario_start = Some (Inr s)"
    by blast
  then have h: "\<forall>f. main_loop (\<lambda>_. (0, 0)) scenario scenario_hdr 20 scenario_start \<noteq> Some (Inl f)"
    by simp
  from scenario_first_step obtain st where
    b: "loop_body (\<lambda>_. (0, 0)) scenario scenario_hdr 20 scenario_start = Some (Inr st)"
    by blast
  show ?thesis
    using main_loop_exits_without_fault [OF h] b by blast
qed

text \<open>
  Without the hypothesis the loop need not exit. On \<open>overrun_input\<close> the first iteration
  reaches the \<^verbatim>\<open>do ... while\<close> of the delta time with the cursor on the last byte of the
  buffer, \<open>0x80\<close>; its high bit is set, the loop has no bound of its own, and the next
  read is past the end of the input.
\<close>

theorem main_loop_overrun_counterexample:
  "main_loop no_junk overrun_input overrun_hdr 19 overrun_start = Some (Inl SrcOverread) \<and>
   mus2midi no_junk overrun_input 19 = Some (Inl SrcOverread)"
  by (simp add: overrun_start_def overrun_hdr_def overrun_input_def run_defs)

theorem channel_allocation_witness:
  "\<exists>st. loop_iter (\<lambda>_. (0, 0)) scenario scenario_hdr 20 1 scenario_start = Some (Inr st) \<and>
        channelMap st ! 15 = 9 \<and> channelMap st ! 0 = 0 \<and> currentChannel st = 1 \<and>
        currentChannel st \<noteq> 9"
proof -
  from scenario_first_step obtain st where
    b: "loop_body (\<lambda>_. (0, 0)) scenario scenario_hdr 20 scenario_start = Some (Inr st)"
    and f: "channelMap st ! 0 = 0" "currentChannel st = 1"
    by blast
  have "cur scenario_start < 20" by (simp add: scenario_start_def init_loop_def scenario_hdr_def)
  with b have i: "loop_iter (\<lambda>_. (0, 0)) scenario scenario_hdr 20 1
      (init_loop (init_ctx scenario 20) scenario_hdr) = Some (Inr st)"
    by (simp add: bindC_def ret_def scenario_start_def)
  from channel_allocation [OF i] have "channelMap st ! 15 = 9" "currentChannel st \<noteq> 9"
    by simp_all
  with i f show ?thesis unfolding scenario_start_def by blast
qed

end
